theory Spec2Isabelle
  imports Main
begin

section \<open>JavaScript string and array primitives used by the bridge\<close>

text \<open>
  Strings are lists of characters. The functions below are the primitives of
  \<^verbatim>\<open>String.prototype\<close> and \<^verbatim>\<open>Array.prototype\<close> that the modelled code calls,
  restricted to ASCII text (case folding touches the letters A to Z only).
\<close>

fun startsWith :: "string \<Rightarrow> string \<Rightarrow> bool" where
  "startsWith s [] = True"
| "startsWith [] (p # ps) = False"
| "startsWith (c # s) (p # ps) = (c = p \<and> startsWith s ps)"

fun includesStr :: "string \<Rightarrow> string \<Rightarrow> bool" where
  "includesStr [] sub = (sub = [])"
| "includesStr (c # s) sub = (startsWith (c # s) sub \<or> includesStr s sub)"

definition lowerChar :: "char \<Rightarrow> char" where
  "lowerChar c =
     (case map_of (zip ''ABCDEFGHIJKLMNOPQRSTUVWXYZ'' ''abcdefghijklmnopqrstuvwxyz'') c of
        Some d \<Rightarrow> d
      | None \<Rightarrow> c)"

definition toLowerCase :: "string \<Rightarrow> string" where
  "toLowerCase s = map lowerChar s"

section \<open>Target resolver (cdp-client.mjs, findEditorTarget)\<close>

record target =
  ttype :: string
  title :: string
  url :: string
  webSocketDebuggerUrl :: string

text \<open>The predicate of the first \<^verbatim>\<open>targets.find\<close>: the main editor window.\<close>

definition isEditor :: "target \<Rightarrow> bool" where
  "isEditor t =
     (ttype t = ''page'' \<and>
      includesStr (title t) ''Antigravity'' \<and>
      \<not> includesStr (title t) ''Launchpad'' \<and>
      \<not> includesStr (url t) ''devtools'')"

text \<open>
  \<^verbatim>\<open>return editor || targets.find(t => t.type === 'page')\<close>: a found target is an
  object, hence truthy; \<^verbatim>\<open>undefined\<close> is \<open>None\<close>.
\<close>

definition findEditorTarget :: "target list \<Rightarrow> target option" where
  "findEditorTarget targets =
     (case find isEditor targets of
        Some editor \<Rightarrow> Some editor
      | None \<Rightarrow> find (\<lambda>t. ttype t = ''page'') targets)"

section \<open>Message store (http-server, saveMessages)\<close>

text \<open>
  The in-memory array \<^verbatim>\<open>messages\<close> and the content of the messages file
  (\<open>None\<close> while the file does not exist). \<^verbatim>\<open>writeFileSync\<close> may throw; the
  exception is swallowed by the empty \<^verbatim>\<open>catch\<close> and the file keeps its content.
\<close>

record 'm storage =
  messages :: "'m list"
  messagesFile :: "'m list option"

text \<open>\<^verbatim>\<open>xs.slice(-k)\<close>: the last \<open>k\<close> elements, all of them when there are fewer.\<close>

definition sliceLast :: "nat \<Rightarrow> 'a list \<Rightarrow> 'a list" where
  "sliceLast k xs = drop (length xs - k) xs"

definition saveMessages :: "bool \<Rightarrow> 'm storage \<Rightarrow> 'm storage" where
  "saveMessages writeOk st =
     (let st1 = (if length (messages st) > 500
                 then st\<lparr>messages := sliceLast 500 (messages st)\<rparr>
                 else st)
      in if writeOk then st1\<lparr>messagesFile := Some (messages st1)\<rparr> else st1)"

section \<open>Workspace reconciliation loop (http-server, startWorkspacePolling)\<close>

text \<open>
  Envelopes handed to \<^verbatim>\<open>broadcast(event, data)\<close>. \<open>workspace_changed\<close> carries the
  path and the project name; \<open>file_changed\<close> carries the event type, the file
  name, the watched folder and the time of the broadcast.
\<close>

datatype notification =
  workspace_changed string string
| file_changed string string string nat

text \<open>The module-level variables of the poll, and the envelopes broadcast so far.\<close>

record workspace =
  workspacePath :: string
  lastValidWorkspacePath :: "string option"
  consecutiveFailures :: nat
  broadcasts :: "notification list"

text \<open>
  What \<^verbatim>\<open>await CDP.getWorkspacePath()\<close> did in one cycle: it threw, or it returned
  \<^verbatim>\<open>null\<close> (\<open>None\<close>) or a string.
\<close>

datatype detection = Threw | Returned "string option"

text \<open>\<^verbatim>\<open>!detectedPath\<close>: \<^verbatim>\<open>null\<close> and the empty string are falsy.\<close>

definition falsy :: "string option \<Rightarrow> bool" where
  "falsy d = (case d of None \<Rightarrow> True | Some s \<Rightarrow> s = [])"

definition backslash :: char where
  "backslash = CHR 0x5C"

text \<open>
  \<^verbatim>\<open>detectedPath.replace(/\\\\/g, '\\')\<close>: every pair of backslashes, matched from
  the left without overlap, becomes one backslash.
\<close>

fun replaceDoubleBackslash :: "string \<Rightarrow> string" where
  "replaceDoubleBackslash (a # b # s) =
     (if a = backslash \<and> b = backslash then backslash # replaceDoubleBackslash s
      else a # replaceDoubleBackslash (b # s))"
| "replaceDoubleBackslash s = s"

text \<open>\<open>isWindows\<close> is \<^verbatim>\<open>process.platform === 'win32'\<close>.\<close>

definition pathEquals :: "bool \<Rightarrow> string \<Rightarrow> string \<Rightarrow> bool" where
  "pathEquals isWindows path1 path2 =
     (if isWindows then toLowerCase path1 = toLowerCase path2 else path1 = path2)"

text \<open>
  One run of the \<^verbatim>\<open>poll\<close> closure. \<open>basename\<close> is Node's \<^verbatim>\<open>path.basename\<close>, taken
  as a parameter. Console output is not modelled; \<^verbatim>\<open>broadcast\<close> appends to the log of
  envelopes.
\<close>

definition poll :: "bool \<Rightarrow> (string \<Rightarrow> string) \<Rightarrow> detection \<Rightarrow> workspace \<Rightarrow> workspace" where
  "poll isWindows basename r st =
     (case r of
        Threw \<Rightarrow> st\<lparr>consecutiveFailures := consecutiveFailures st + 1\<rparr>
      | Returned d \<Rightarrow>
          if falsy d then st\<lparr>consecutiveFailures := consecutiveFailures st + 1\<rparr>
          else
            let detectedPath = replaceDoubleBackslash (the d);
                st1 = st\<lparr>consecutiveFailures := 0,
                         lastValidWorkspacePath := Some detectedPath\<rparr>
            in if \<not> pathEquals isWindows detectedPath (workspacePath st)
               then st1\<lparr>workspacePath := detectedPath,
                        broadcasts := broadcasts st @
                          [workspace_changed detectedPath (basename detectedPath)]\<rparr>
               else st1)"

text \<open>Successive cycles of the interval timer, oldest first.\<close>

definition polls :: "bool \<Rightarrow> (string \<Rightarrow> string) \<Rightarrow> detection list \<Rightarrow> workspace \<Rightarrow> workspace" where
  "polls isWindows basename rs st = fold (poll isWindows basename) rs st"

text \<open>A cycle without a path: the inference threw or returned a falsy value.\<close>

definition noPath :: "detection \<Rightarrow> bool" where
  "noPath r = (case r of Threw \<Rightarrow> True | Returned d \<Rightarrow> falsy d)"

section \<open>Filesystem change watcher (http-server, startWatching)\<close>

text \<open>
  A pending \<^verbatim>\<open>setTimeout\<close> of the debounce: its handle, the time it is due, and the
  values its callback has captured (event type, file name, watched folder).
\<close>

record timeout =
  handle :: nat
  due :: nat
  evType :: string
  evFile :: string
  evFolder :: string

text \<open>
  The module-level variables of the watcher, Node's table of pending timeouts with its
  clock in milliseconds, and the envelopes broadcast so far. The \<^verbatim>\<open>FSWatcher\<close> object
  is identified with the folder it watches.
\<close>

record watcher =
  activeWatcher :: "string option"
  watchedPath :: "string option"
  watchDebounceTimer :: "nat option"
  timeouts :: "timeout list"
  nextHandle :: nat
  now :: nat
  sent :: "notification list"

text \<open>\<^verbatim>\<open>clearTimeout\<close> of a handle that has fired or was cleared does nothing.\<close>

definition clearTimeout :: "nat \<Rightarrow> watcher \<Rightarrow> watcher" where
  "clearTimeout h st = st\<lparr>timeouts := filter (\<lambda>t. handle t \<noteq> h) (timeouts st)\<rparr>"

definition stopWatching :: "watcher \<Rightarrow> watcher" where
  "stopWatching st =
     (let st1 = (if activeWatcher st \<noteq> None
                 then st\<lparr>activeWatcher := None, watchedPath := None\<rparr>
                 else st)
      in case watchDebounceTimer st1 of
           Some h \<Rightarrow> (clearTimeout h st1)\<lparr>watchDebounceTimer := None\<rparr>
         | None \<Rightarrow> st1)"

text \<open>
  \<open>existsSync\<close> is the file system's answer; \<open>watchOk\<close> is false when \<^verbatim>\<open>fs.watch\<close>
  throws, which the \<^verbatim>\<open>catch\<close> only logs.
\<close>

definition startWatching :: "(string \<Rightarrow> bool) \<Rightarrow> bool \<Rightarrow> string \<Rightarrow> watcher \<Rightarrow> watcher" where
  "startWatching existsSync watchOk folderPath st =
     (let st1 = stopWatching st
      in if \<not> existsSync folderPath then st1
         else let st2 = st1\<lparr>watchedPath := Some folderPath\<rparr>
              in if watchOk then st2\<lparr>activeWatcher := Some folderPath\<rparr> else st2)"

text \<open>
  The listener passed to \<^verbatim>\<open>fs.watch\<close>, a closure over \<open>folderPath\<close>: it clears the
  timer the variable refers to and sets a new one, due in 300 ms.
\<close>

definition onChange :: "string \<Rightarrow> string \<Rightarrow> string \<Rightarrow> watcher \<Rightarrow> watcher" where
  "onChange folderPath eventType filename st =
     (let st1 = (case watchDebounceTimer st of
                   Some h \<Rightarrow> clearTimeout h st
                 | None \<Rightarrow> st);
          h = nextHandle st1
      in st1\<lparr>timeouts := timeouts st1 @
                 [\<lparr>handle = h, due = now st1 + 300, evType = eventType,
                   evFile = filename, evFolder = folderPath\<rparr>],
             nextHandle := h + 1,
             watchDebounceTimer := Some h\<rparr>)"

text \<open>A raw change event of the operating system reaches the listener of the open watcher.\<close>

definition osEvent :: "string \<Rightarrow> string \<Rightarrow> watcher \<Rightarrow> watcher" where
  "osEvent eventType filename st =
     (case activeWatcher st of
        None \<Rightarrow> st
      | Some folderPath \<Rightarrow> onChange folderPath eventType filename st)"

text \<open>The callback of a debounce timeout: one \<open>file_changed\<close> broadcast, stamped with the time.\<close>

definition fire :: "timeout \<Rightarrow> notification" where
  "fire t = file_changed (evType t) (evFile t) (evFolder t) (due t)"

text \<open>
  \<open>d\<close> milliseconds pass: the timeouts that have come due run, in the order they were
  set, each at the time it is due.
\<close>

definition elapse :: "nat \<Rightarrow> watcher \<Rightarrow> watcher" where
  "elapse d st =
     (let t = now st + d
      in st\<lparr>now := t,
            timeouts := filter (\<lambda>x. \<not> due x \<le> t) (timeouts st),
            sent := sent st @ map fire (filter (\<lambda>x. due x \<le> t) (timeouts st))\<rparr>)"

text \<open>
  A sequence of raw events, each given with the delay since the event before it (for the
  first one, since the start), its type and its file name.
\<close>

definition rawEvents :: "(nat \<times> string \<times> string) list \<Rightarrow> watcher \<Rightarrow> watcher" where
  "rawEvents es st = fold (\<lambda>(d, eventType, filename) s. osEvent eventType filename (elapse d s)) es st"

text \<open>
  The debounce is armed: the only pending timeout is the one the variable refers to, due
  300 ms from now, for the given event.
\<close>

definition armed :: "string \<Rightarrow> string \<Rightarrow> string \<Rightarrow> watcher \<Rightarrow> bool" where
  "armed folderPath eventType filename st =
     (case watchDebounceTimer st of
        None \<Rightarrow> False
      | Some h \<Rightarrow> timeouts st =
          [\<lparr>handle = h, due = now st + 300, evType = eventType,
            evFile = filename, evFolder = folderPath\<rparr>])"

section \<open>Model and mode reader (cdp-client.mjs, getModelAndMode)\<close>

text \<open>\<^verbatim>\<open>String.prototype.trim\<close> on ASCII text: blanks, tabs and line breaks at both ends.\<close>

definition isSpace :: "char \<Rightarrow> bool" where
  "isSpace c = (c \<in> set [CHR 0x20, CHR 0x09, CHR 0x0A, CHR 0x0B, CHR 0x0C, CHR 0x0D])"

definition trim :: "string \<Rightarrow> string" where
  "trim s = rev (dropWhile isSpace (rev (dropWhile isSpace s)))"

text \<open>
  \<^verbatim>\<open>/^(claude|gemini|gpt)/i.test(text) && /(opus|sonnet|flash|pro|thinking|high|low|medium)/i.test(text)\<close>
\<close>

definition isModelText :: "string \<Rightarrow> bool" where
  "isModelText text =
     (list_ex (startsWith (toLowerCase text)) [''claude'', ''gemini'', ''gpt''] \<and>
      list_ex (includesStr (toLowerCase text))
        [''opus'', ''sonnet'', ''flash'', ''pro'', ''thinking'', ''high'', ''low'', ''medium''])"

text \<open>\<^verbatim>\<open>/^(planning|fast)$/i.test(text)\<close>\<close>

definition isModeText :: "string \<Rightarrow> bool" where
  "isModeText text = (toLowerCase text \<in> set [''planning'', ''fast''])"

text \<open>The value the script returns, and the value the reader resolves to.\<close>

record readout =
  model :: "string option"
  mode :: "string option"

text \<open>
  The loop of the script over \<^verbatim>\<open>document.querySelectorAll('p, span, div, button')\<close>.
  Each element is given by its \<^verbatim>\<open>innerText || textContent || ''\<close>; \<open>m\<close> and \<open>md\<close> are
  the variables \<^verbatim>\<open>model\<close> and \<^verbatim>\<open>mode\<close>.
\<close>

fun scanElements :: "string option \<Rightarrow> string option \<Rightarrow> string list \<Rightarrow> readout" where
  "scanElements m md [] = \<lparr>model = m, mode = md\<rparr>"
| "scanElements m md (el # els) =
     (let text = trim el
      in if length text < 4 \<or> length text > 50 then scanElements m md els
         else
           let m' = (if m = None \<and> isModelText text then Some text else m);
               md' = (if md = None \<and> isModeText text then Some text else md)
           in if m' \<noteq> None \<and> md' \<noteq> None then \<lparr>model = m', mode = md'\<rparr>
              else scanElements m' md' els)"

definition SCRIPT_getModelAndMode :: "string list \<Rightarrow> readout" where
  "SCRIPT_getModelAndMode els = scanElements None None els"

definition defaultReadout :: readout where
  "defaultReadout = \<lparr>model = Some ''Unknown'', mode = Some ''Planning''\<rparr>"

text \<open>
  The loop over the execution contexts. A context is given by the element texts of its
  document, or \<open>None\<close> when the \<^verbatim>\<open>Runtime.evaluate\<close> call was rejected or returned no
  value; such a context is skipped.
\<close>

fun searchContexts :: "string list option list \<Rightarrow> readout" where
  "searchContexts [] = defaultReadout"
| "searchContexts (None # ctxs) = searchContexts ctxs"
| "searchContexts (Some els # ctxs) =
     (let v = SCRIPT_getModelAndMode els
      in if model v \<noteq> None then v else searchContexts ctxs)"

text \<open>
  \<open>enabled\<close> is false when the socket fails or \<^verbatim>\<open>Runtime.enable\<close> is rejected: both
  paths resolve to the default.
\<close>

definition getModelAndMode :: "bool \<Rightarrow> string list option list \<Rightarrow> readout" where
  "getModelAndMode enabled ctxs = (if enabled then searchContexts ctxs else defaultReadout)"

text \<open>The texts of a document that the scan looks at: trimmed, of 4 to 50 characters.\<close>

definition scannedTexts :: "string list \<Rightarrow> string list" where
  "scannedTexts els = filter (\<lambda>t. 4 \<le> length t \<and> length t \<le> 50) (map trim els)"

text \<open>The readouts of the contexts whose evaluation returned a value, in order.\<close>

definition contextReadouts :: "string list option list \<Rightarrow> readout list" where
  "contextReadouts ctxs =
     map (\<lambda>els. \<lparr>model = find isModelText (scannedTexts els),
                  mode = find isModeText (scannedTexts els)\<rparr>)
       (concat (map (\<lambda>c. case c of None \<Rightarrow> [] | Some els \<Rightarrow> [els]) ctxs))"

section \<open>Model and mode setter (cdp-client.mjs, setModel and setMode)\<close>

text \<open>
  \<^verbatim>\<open>s.split(re)\<close> for a regular expression \<open>re\<close> that matches the non-empty runs of
  separator characters: the pieces between the runs, with an empty piece before a
  leading run and after a trailing one. \<open>cur\<close> is the piece being read, reversed;
  \<open>inSep\<close> tells that the last character read was a separator.
\<close>

fun splitRuns :: "(char \<Rightarrow> bool) \<Rightarrow> string \<Rightarrow> bool \<Rightarrow> string \<Rightarrow> string list" where
  "splitRuns sep cur inSep [] = [rev cur]"
| "splitRuns sep cur inSep (c # cs) =
     (if sep c
      then (if inSep then splitRuns sep [] True cs
            else rev cur # splitRuns sep [] True cs)
      else splitRuns sep (c # cur) False cs)"

definition splitOn :: "(char \<Rightarrow> bool) \<Rightarrow> string \<Rightarrow> string list" where
  "splitOn sep s = splitRuns sep [] False s"

text \<open>The class \<^verbatim>\<open>[a-z0-9]\<close> with the flag \<^verbatim>\<open>i\<close>.\<close>

definition isAlnum :: "char \<Rightarrow> bool" where
  "isAlnum c =
     (c \<in> set ''abcdefghijklmnopqrstuvwxyzABCDEFGHIJKLMNOPQRSTUVWXYZ0123456789'')"

text \<open>\<^verbatim>\<open>(el.innerText || el.textContent || '').trim().toLowerCase()\<close>\<close>

definition getNorm :: "string \<Rightarrow> string" where
  "getNorm raw = toLowerCase (trim raw)"

text \<open>\<^verbatim>\<open>targetModel.split(/[^a-z0-9]+/i).filter(p => p.length > 1)\<close>\<close>

definition targetParts :: "string \<Rightarrow> string list" where
  "targetParts targetModel =
     filter (\<lambda>p. length p > 1) (splitOn (\<lambda>c. \<not> isAlnum c) targetModel)"

text \<open>\<^verbatim>\<open>targetParts.every(part => candText.includes(part))\<close>\<close>

definition allPartsMatch :: "string list \<Rightarrow> string \<Rightarrow> bool" where
  "allPartsMatch parts candText = list_all (includesStr candText) parts"

text \<open>
  Check 3 of the loop: at least two parts, the first part is contained, and
  \<^verbatim>\<open>matchCount >= (targetParts.length - 1) / 2\<close>, where \<open>matchCount\<close> counts the
  contained parts after the first.
\<close>

definition relaxedMatch :: "string list \<Rightarrow> string \<Rightarrow> bool" where
  "relaxedMatch parts candText =
     (length parts \<ge> 2 \<and> includesStr candText (hd parts) \<and>
      2 * length (filter (includesStr candText) (tl parts)) \<ge> length parts - 1)"

text \<open>
  The loop \<^verbatim>\<open>for (const cand of candidates)\<close> of \<^verbatim>\<open>setModel\<close>. A candidate is given
  by its normalised text and named by its position \<open>i\<close> in \<^verbatim>\<open>candidates\<close>. Checks 1
  and 2 leave the loop; check 3 assigns \<^verbatim>\<open>bestMatch\<close> and goes on.
\<close>

fun matchLoop :: "string \<Rightarrow> string list \<Rightarrow> nat \<Rightarrow> nat option \<Rightarrow> string list \<Rightarrow> nat option" where
  "matchLoop targetModel parts i bestMatch [] = bestMatch"
| "matchLoop targetModel parts i bestMatch (candText # rest) =
     (if candText = targetModel then Some i
      else if allPartsMatch parts candText then Some i
      else matchLoop targetModel parts (i + 1)
             (if relaxedMatch parts candText then Some i else bestMatch) rest)"

definition setModel_bestMatch :: "string \<Rightarrow> string list \<Rightarrow> nat option" where
  "setModel_bestMatch modelName candidates =
     (let targetModel = toLowerCase modelName
      in matchLoop targetModel (targetParts targetModel) 0 None candidates)"

text \<open>The value a setter script returns, and what it does to the page.\<close>

record scriptResult =
  found :: bool
  success :: bool
  error :: "string option"
  selected :: "nat option"
  candidatesFound :: "string list option"
  allTexts :: "string list option"

datatype domAction = ScrollIntoView nat | Click nat | DispatchEscape

definition modelKeywords :: "string list" where
  "modelKeywords = [''gemini'', ''claude'', ''gpt'', ''opus'', ''sonnet'', ''flash'', ''model'']"

text \<open>
  The candidates of \<^verbatim>\<open>setModel\<close>: the \<^verbatim>\<open>cursor-pointer\<close> elements with a model keyword
  in a text of 4 to 99 characters; when there are none, the items of the first menu
  selector that has an item with a text of 4 to 79 characters.
\<close>

fun menuCandidates :: "string list list \<Rightarrow> string list" where
  "menuCandidates [] = []"
| "menuCandidates (items # sels) =
     (let cs = filter (\<lambda>text. length text > 3 \<and> length text < 80) (map getNorm items)
      in if length cs > 0 then cs else menuCandidates sels)"

definition setModel_candidates :: "string list \<Rightarrow> string list list \<Rightarrow> string list" where
  "setModel_candidates cursorPointerItems menuItems =
     (let cs = filter (\<lambda>text. length text > 3 \<and> length text < 100 \<and>
                         list_ex (includesStr text) modelKeywords)
                 (map getNorm cursorPointerItems)
      in if length cs = 0 then menuCandidates menuItems else cs)"

text \<open>
  The script of \<^verbatim>\<open>setModel\<close> from the opened dropdown on: the result it returns and
  the events it dispatches.
\<close>

definition SCRIPT_setModel :: "string \<Rightarrow> string list \<Rightarrow> string list list \<Rightarrow> scriptResult \<times> domAction list" where
  "SCRIPT_setModel modelName cursorPointerItems menuItems =
     (case setModel_bestMatch modelName (setModel_candidates cursorPointerItems menuItems) of
        Some i \<Rightarrow>
          (\<lparr>found = True, success = True, error = None, selected = Some i,
            candidatesFound = None, allTexts = None\<rparr>,
           [ScrollIntoView i, Click i])
      | None \<Rightarrow>
          (\<lparr>found = True, success = False, error = Some ''Model option not found'',
            selected = None, candidatesFound = None, allTexts = None\<rparr>,
           [DispatchEscape]))"

definition modeKeywords :: "string list" where
  "modeKeywords = [''planning'', ''fast'']"

text \<open>\<^verbatim>\<open>s.substring(0, n)\<close>\<close>

definition substring0 :: "nat \<Rightarrow> string \<Rightarrow> string" where
  "substring0 n s = take n s"

text \<open>The \<^verbatim>\<open>cursor-pointer\<close> texts of 2 to 149 characters that \<^verbatim>\<open>setMode\<close> looks at.\<close>

definition setMode_texts :: "string list \<Rightarrow> string list" where
  "setMode_texts cursorPointerItems =
     filter (\<lambda>text. length text > 1 \<and> length text < 150) (map getNorm cursorPointerItems)"

definition setMode_candidates :: "string list \<Rightarrow> string list" where
  "setMode_candidates cursorPointerItems =
     filter (\<lambda>text. list_ex (includesStr text) modeKeywords \<or> length text < 30)
       (setMode_texts cursorPointerItems)"

text \<open>The loop of \<^verbatim>\<open>setMode\<close>: the first candidate whose text contains the target.\<close>

fun modeLoop :: "string \<Rightarrow> nat \<Rightarrow> string list \<Rightarrow> nat option" where
  "modeLoop targetMode i [] = None"
| "modeLoop targetMode i (candText # rest) =
     (if includesStr candText targetMode then Some i else modeLoop targetMode (i + 1) rest)"

definition SCRIPT_setMode :: "string \<Rightarrow> string list \<Rightarrow> scriptResult \<times> domAction list" where
  "SCRIPT_setMode modeName cursorPointerItems =
     (let candidates = setMode_candidates cursorPointerItems;
          allCursorPointerTexts = map (substring0 60) (setMode_texts cursorPointerItems)
      in case modeLoop (toLowerCase modeName) 0 candidates of
           Some i \<Rightarrow>
             (\<lparr>found = True, success = True, error = None, selected = Some i,
               candidatesFound = None, allTexts = None\<rparr>,
              [ScrollIntoView i, Click i])
         | None \<Rightarrow>
             (\<lparr>found = True, success = False, error = Some ''Mode option not found'',
               selected = None,
               candidatesFound = Some (map (substring0 50) candidates),
               allTexts = Some (take 10 allCursorPointerTexts)\<rparr>,
              [DispatchEscape]))"

text \<open>Positions in a list: the first and the last element with a property.\<close>

fun firstIndex :: "('a \<Rightarrow> bool) \<Rightarrow> 'a list \<Rightarrow> nat option" where
  "firstIndex P [] = None"
| "firstIndex P (x # xs) = (if P x then Some 0 else map_option Suc (firstIndex P xs))"

fun lastIndex :: "('a \<Rightarrow> bool) \<Rightarrow> 'a list \<Rightarrow> nat option" where
  "lastIndex P [] = None"
| "lastIndex P (x # xs) =
     (case lastIndex P xs of
        Some j \<Rightarrow> Some (Suc j)
      | None \<Rightarrow> if P x then Some 0 else None)"

section \<open>Workspace path inferencer (cdp-client.mjs, getWorkspacePath)\<close>

text \<open>
  \<^verbatim>\<open>target.title.match(/^([^-]+)\s*-\s*Antigravity/)\<close> and the trimmed first group:
  the group is the non-empty text before the first hyphen, and the product name must
  follow the hyphen after optional blanks. \<open>None\<close> is \<^verbatim>\<open>null\<close>.
\<close>

definition projectNameOf :: "string \<Rightarrow> string option" where
  "projectNameOf t =
     (let pre = takeWhile (\<lambda>c. c \<noteq> CHR ''-'') t;
          rest = dropWhile (\<lambda>c. c \<noteq> CHR ''-'') t
      in if pre \<noteq> [] \<and> rest \<noteq> [] \<and>
            startsWith (dropWhile isSpace (tl rest)) ''Antigravity''
         then Some (trim pre) else None)"

text \<open>\<^verbatim>\<open>s.indexOf(sub)\<close>, with \<open>None\<close> for \<open>-1\<close>.\<close>

fun indexOf :: "string \<Rightarrow> string \<Rightarrow> nat option" where
  "indexOf [] sub = (if sub = [] then Some 0 else None)"
| "indexOf (c # s) sub =
     (if startsWith (c # s) sub then Some 0 else map_option Suc (indexOf s sub))"

text \<open>
  The loop over the delimiters: \<^verbatim>\<open>if (idx > 0 && idx < endIdx) endIdx = idx\<close>, starting
  from the length of the text.
\<close>

definition cutAtDelims :: "string list \<Rightarrow> string \<Rightarrow> string" where
  "cutAtDelims delims pathPart =
     (let endIdx = fold (\<lambda>delim e. case indexOf pathPart delim of
                                      Some idx \<Rightarrow> if idx > 0 \<and> idx < e then idx else e
                                    | None \<Rightarrow> e)
                     delims (length pathPart)
      in trim (take endIdx pathPart))"

definition isLetter :: "char \<Rightarrow> bool" where
  "isLetter ch = (ch \<in> set ''ABCDEFGHIJKLMNOPQRSTUVWXYZabcdefghijklmnopqrstuvwxyz'')"

text \<open>The text from the first letter that is followed by a colon.\<close>

fun driveSuffix :: "string \<Rightarrow> string option" where
  "driveSuffix (ch # next # s) =
     (if isLetter ch \<and> next = CHR '':'' then Some (ch # next # s)
      else driveSuffix (next # s))"
| "driveSuffix s = None"

text \<open>The text from the first occurrence of the first root, in the order of the list, that occurs.\<close>

fun unixSuffix :: "string list \<Rightarrow> string \<Rightarrow> string option" where
  "unixSuffix [] src = None"
| "unixSuffix (root # roots) src =
     (case indexOf src root of
        Some idx \<Rightarrow> Some (drop idx src)
      | None \<Rightarrow> unixSuffix roots src)"

text \<open>What the page script found: \<^verbatim>\<open>{ path, isWindows }\<close>.\<close>

record detected =
  path :: string
  isWindows :: bool

text \<open>One \<open>aria-label\<close> or \<open>title\<close> of a tab.\<close>

definition scanSource :: "string \<Rightarrow> detected option" where
  "scanSource src =
     (if length src < 5 then None
      else case driveSuffix src of
             Some pathPart \<Rightarrow>
               Some \<lparr>path = cutAtDelims ['','', '';'', '' - ''] pathPart, isWindows = True\<rparr>
           | None \<Rightarrow>
               (case unixSuffix [''/home/'', ''/Users/'', ''/var/'', ''/opt/''] src of
                  Some pathPart \<Rightarrow>
                    Some \<lparr>path = cutAtDelims ['','', '';'', '' - '', [CHR 0x27], [CHR 0x22]] pathPart,
                          isWindows = False\<rparr>
                | None \<Rightarrow> None))"

text \<open>The tabs, each with its \<open>aria-label\<close> and its \<open>title\<close> (empty when absent).\<close>

fun scanTabs :: "(string \<times> string) list \<Rightarrow> detected option" where
  "scanTabs [] = None"
| "scanTabs ((ariaLabel, titleAttr) # tabs) =
     (case scanSource ariaLabel of
        Some r \<Rightarrow> Some r
      | None \<Rightarrow>
          (case scanSource titleAttr of
             Some r \<Rightarrow> Some r
           | None \<Rightarrow> scanTabs tabs))"

text \<open>
  The \<open>data-uri\<close> attributes. \<open>decode\<close> is \<^verbatim>\<open>decodeURIComponent\<close>, \<open>None\<close> when it
  throws.
\<close>

fun scanUris :: "(string \<Rightarrow> string option) \<Rightarrow> string list \<Rightarrow> detected option" where
  "scanUris decode [] = None"
| "scanUris decode (uri # uris) =
     (if startsWith uri ''file:///''
      then (case decode (drop 8 uri) of
              Some decoded \<Rightarrow>
                (let isWin = (length decoded > 1 \<and> decoded ! 1 = CHR '':'')
                 in Some \<lparr>path = (if isWin
                                   then map (\<lambda>c. if c = CHR ''/'' then backslash else c) decoded
                                   else decoded),
                          isWindows = isWin\<rparr>)
            | None \<Rightarrow> scanUris decode uris)
      else scanUris decode uris)"

definition SCRIPT_getWorkspacePath ::
  "(string \<Rightarrow> string option) \<Rightarrow> (string \<times> string) list \<Rightarrow> string list \<Rightarrow> detected option" where
  "SCRIPT_getWorkspacePath decode tabs uris =
     (case scanTabs tabs of
        Some r \<Rightarrow> Some r
      | None \<Rightarrow> scanUris decode uris)"

text \<open>\<^verbatim>\<open>filePath.split(sep).filter(Boolean)\<close> with \<^verbatim>\<open>sep = isWindows ? /[\\/]+/ : /\/+/\<close>\<close>

definition isSep :: "bool \<Rightarrow> char \<Rightarrow> bool" where
  "isSep isWin c = (if isWin then c = backslash \<or> c = CHR ''/'' else c = CHR ''/'')"

definition pathParts :: "bool \<Rightarrow> string \<Rightarrow> string list" where
  "pathParts isWin filePath = filter (\<lambda>p. p \<noteq> []) (splitOn (isSep isWin) filePath)"

text \<open>\<^verbatim>\<open>xs.join(sep)\<close>\<close>

fun join :: "string \<Rightarrow> string list \<Rightarrow> string" where
  "join sep [] = []"
| "join sep [x] = x"
| "join sep (x # y # ys) = x @ sep @ join sep (y # ys)"

text \<open>\<^verbatim>\<open>xs.slice(a, b)\<close> for \<open>a \<le> b\<close>, and \<^verbatim>\<open>xs.slice(0, -1)\<close>.\<close>

definition slice :: "nat \<Rightarrow> nat \<Rightarrow> 'a list \<Rightarrow> 'a list" where
  "slice a b xs = take (b - a) (drop a xs)"

definition sliceButLast :: "'a list \<Rightarrow> 'a list" where
  "sliceButLast xs = take (length xs - 1) xs"

text \<open>\<^verbatim>\<open>xs[0] + ...\<close>: an absent element is \<^verbatim>\<open>undefined\<close> and concatenates as that word.\<close>

definition firstOrUndefined :: "string list \<Rightarrow> string" where
  "firstOrUndefined xs = (case xs of [] \<Rightarrow> ''undefined'' | x # _ \<Rightarrow> x)"

text \<open>The loop over \<open>pathParts\<close> that looks for the project name, from index \<open>i\<close> on.\<close>

fun anchorLoop :: "string \<Rightarrow> nat \<Rightarrow> string list \<Rightarrow> nat option" where
  "anchorLoop projectName i [] = None"
| "anchorLoop projectName i (part # rest) =
     (if toLowerCase part = toLowerCase projectName then Some i
      else anchorLoop projectName (i + 1) rest)"

text \<open>
  The reconstruction of the workspace root from the detected file path. A project name
  that is \<^verbatim>\<open>null\<close> or empty is falsy and skips the loop.
\<close>

definition workspaceRoot :: "string option \<Rightarrow> detected \<Rightarrow> string" where
  "workspaceRoot projectName data =
     (let parts = pathParts (isWindows data) (path data);
          hit = (if falsy projectName then None else anchorLoop (the projectName) 0 parts)
      in case hit of
           Some i \<Rightarrow>
             if isWindows data
             then firstOrUndefined parts @ [backslash] @ join [backslash] (slice 1 (i + 1) parts)
             else ''/'' @ join ''/'' (slice 0 (i + 1) parts)
         | None \<Rightarrow>
             let parentParts = sliceButLast parts
             in if isWindows data
                then firstOrUndefined parentParts @ [backslash] @
                       join [backslash] (drop 1 parentParts)
                else ''/'' @ join ''/'' parentParts)"

text \<open>
  \<open>getWorkspacePath\<close> for a resolved target with the given window title, whose page
  script ran on the given tabs and \<open>data-uri\<close> attributes. \<open>None\<close> is \<^verbatim>\<open>null\<close>.
\<close>

definition getWorkspacePath ::
  "(string \<Rightarrow> string option) \<Rightarrow> string \<Rightarrow> (string \<times> string) list \<Rightarrow> string list \<Rightarrow> string option" where
  "getWorkspacePath decode targetTitle tabs uris =
     (case SCRIPT_getWorkspacePath decode tabs uris of
        None \<Rightarrow> None
      | Some data \<Rightarrow>
          if path data = [] then None
          else Some (workspaceRoot (projectNameOf targetTitle) data))"

text \<open>
  The path written from its segments: on Windows the drive, a backslash and the other
  segments separated by backslashes; elsewhere a slash and the segments separated by
  slashes.
\<close>

definition pathOfSegments :: "bool \<Rightarrow> string list \<Rightarrow> string" where
  "pathOfSegments isWin segs =
     (if isWin then hd segs @ [backslash] @ join [backslash] (tl segs)
      else ''/'' @ join ''/'' segs)"

text \<open>
  Equality of two strings up to the case of letters, in the words of the specification
  and without reference to the code, which compares the results of \<open>toLowerCase\<close>:
  the strings have the same length, and at each position the characters are the same or
  are the capital and the small form of one letter (the capitals have the codes 65 to 90,
  the small letter is 32 above its capital).
\<close>

definition sameLetter :: "char \<Rightarrow> char \<Rightarrow> bool" where
  "sameLetter c d =
     (c = d \<or>
      (65 \<le> (of_char c :: nat) \<and> (of_char c :: nat) \<le> 90 \<and>
       (of_char d :: nat) = of_char c + 32) \<or>
      (65 \<le> (of_char d :: nat) \<and> (of_char d :: nat) \<le> 90 \<and>
       (of_char c :: nat) = of_char d + 32))"

definition caseInsensitivelyEqual :: "string \<Rightarrow> string \<Rightarrow> bool" where
  "caseInsensitivelyEqual a b = list_all2 sameLetter a b"

section \<open>Remote call transport (cdp-client.mjs, connectToTarget and the call helpers)\<close>

text \<open>How the promise of one request was settled.\<close>

datatype 'r outcome = Resolved 'r | Rejected string

text \<open>
  An inbound frame: a response with its id, the message of its \<open>error\<close> field when it
  has one, and its result; the notification \<open>Runtime.executionContextCreated\<close> with the
  id of the context; or another notification.
\<close>

datatype 'r inbound = Response nat "string option" 'r | ContextCreated nat | OtherEvent

text \<open>
  One connection: the counter \<open>messageId\<close>, the keys of the map \<open>pending\<close>, the
  settlements of the request promises in the order they happened, the frames sent, the
  pending \<^verbatim>\<open>setTimeout\<close> callbacks of the call helper (due time and request id) with
  the clock in milliseconds, the array \<open>contexts\<close>, and whether the socket is open.
\<close>

record 'r connection =
  messageId :: nat
  pending :: "nat set"
  outcomes :: "(nat \<times> 'r outcome) list"
  frames :: "(nat \<times> string) list"
  timers :: "(nat \<times> nat) list"
  clock :: nat
  contexts :: "nat list"
  wsOpen :: bool

text \<open>\<^verbatim>\<open>let messageId = 1; const pending = new Map();\<close> on an opened socket.\<close>

definition openConnection :: "'r connection" where
  "openConnection =
     \<lparr>messageId = 1, pending = {}, outcomes = [], frames = [], timers = [], clock = 0,
      contexts = [], wsOpen = True\<rparr>"

text \<open>\<open>client.send\<close> of \<open>connectToTarget\<close>: no timer is set.\<close>

definition send :: "string \<Rightarrow> 'r connection \<Rightarrow> 'r connection" where
  "send method st =
     (let rid = messageId st
      in st\<lparr>messageId := rid + 1,
            pending := insert rid (pending st),
            frames := frames st @ [(rid, method)]\<rparr>)"

text \<open>
  The helper \<open>call\<close> of \<open>getModelAndMode\<close>, \<open>setModel\<close>, \<open>setMode\<close>,
  \<open>getPendingApprovals\<close> and \<open>respondToApproval\<close>: the same three statements, and a
  timeout of \<open>ms\<close> milliseconds for this request.
\<close>

definition call :: "nat \<Rightarrow> string \<Rightarrow> 'r connection \<Rightarrow> 'r connection" where
  "call ms method st =
     (let rid = messageId st;
          st1 = send method st
      in st1\<lparr>timers := timers st1 @ [(clock st1 + ms, rid)]\<rparr>)"

text \<open>
  \<^verbatim>\<open>if (msg.id && pending.has(msg.id))\<close>: the entry is deleted and the promise rejected
  with the carried message or resolved with the result. The id 0 is falsy.
\<close>

definition settle :: "nat \<Rightarrow> string option \<Rightarrow> 'r \<Rightarrow> 'r connection \<Rightarrow> 'r connection" where
  "settle rid err res st =
     st\<lparr>pending := pending st - {rid},
        outcomes := outcomes st @
          [(rid, case err of Some message \<Rightarrow> Rejected message | None \<Rightarrow> Resolved res)]\<rparr>"

text \<open>The \<open>message\<close> listener of \<open>connectToTarget\<close>.\<close>

definition onMessage :: "'r inbound \<Rightarrow> 'r connection \<Rightarrow> 'r connection" where
  "onMessage msg st =
     (case msg of
        Response rid err res \<Rightarrow>
          if rid \<noteq> 0 \<and> rid \<in> pending st then settle rid err res st else st
      | ContextCreated c \<Rightarrow> st
      | OtherEvent \<Rightarrow> st)"

text \<open>The \<open>message\<close> listener of the helpers, which also collects the contexts.\<close>

definition onMessageCtx :: "'r inbound \<Rightarrow> 'r connection \<Rightarrow> 'r connection" where
  "onMessageCtx msg st =
     (case msg of
        Response rid err res \<Rightarrow>
          if rid \<noteq> 0 \<and> rid \<in> pending st then settle rid err res st else st
      | ContextCreated c \<Rightarrow> st\<lparr>contexts := contexts st @ [c]\<rparr>
      | OtherEvent \<Rightarrow> st)"

text \<open>The callback of the helper's timeout for the request \<open>rid\<close>.\<close>

definition onTimeout :: "nat \<Rightarrow> 'r connection \<Rightarrow> 'r connection" where
  "onTimeout rid st =
     (if rid \<in> pending st
      then st\<lparr>pending := pending st - {rid},
              outcomes := outcomes st @ [(rid, Rejected ''Timeout'')]\<rparr>
      else st)"

text \<open>\<open>d\<close> milliseconds pass: the timeouts that have come due run, in the order they were set.\<close>

definition advance :: "nat \<Rightarrow> 'r connection \<Rightarrow> 'r connection" where
  "advance d st =
     (let t = clock st + d;
          dueIds = map snd (filter (\<lambda>x. fst x \<le> t) (timers st))
      in fold onTimeout dueIds
           (st\<lparr>clock := t, timers := filter (\<lambda>x. \<not> fst x \<le> t) (timers st)\<rparr>))"

text \<open>
  What happens on a connection. \<open>Request\<close> and \<open>Close\<close> are the actions of the owner
  of the client: the caller of the client of \<open>connectToTarget\<close>, or the \<open>open\<close> handler
  of a helper, which is modelled by \<open>onSignal\<close> below and decides itself when it calls
  and when it closes. A frame arriving, time passing and a socket error come from
  outside. The \<open>error\<close> listeners of the file settle the promise of the whole operation,
  not the requests.
\<close>

datatype 'r event = Request string | Message "'r inbound" | Elapse nat | WsError | Close

text \<open>
  One action or event on the transport. \<open>tmo\<close> tells which client it is: \<open>None\<close> for
  the client of \<open>connectToTarget\<close>, \<open>Some ms\<close> for the \<open>call\<close> and the listener of a
  helper whose timeout is \<open>ms\<close>.
\<close>

definition step :: "nat option \<Rightarrow> 'r event \<Rightarrow> 'r connection \<Rightarrow> 'r connection" where
  "step tmo e st =
     (case e of
        Request method \<Rightarrow> (case tmo of None \<Rightarrow> send method st | Some ms \<Rightarrow> call ms method st)
      | Message msg \<Rightarrow> (case tmo of None \<Rightarrow> onMessage msg st | Some ms \<Rightarrow> onMessageCtx msg st)
      | Elapse d \<Rightarrow> advance d st
      | WsError \<Rightarrow> st\<lparr>wsOpen := False\<rparr>
      | Close \<Rightarrow> st\<lparr>wsOpen := False\<rparr>)"

definition run :: "nat option \<Rightarrow> 'r event list \<Rightarrow> 'r connection \<Rightarrow> 'r connection" where
  "run tmo evs st = fold (step tmo) evs st"

text \<open>The event is a response frame for the request \<open>rid\<close>.\<close>

definition answers :: "nat \<Rightarrow> 'r event \<Rightarrow> bool" where
  "answers rid e = (case e of Message (Response i err res) \<Rightarrow> i = rid | _ \<Rightarrow> False)"

text \<open>The settlements of the request \<open>rid\<close>, and the time that passes in a list of events.\<close>

definition outcomesOf :: "nat \<Rightarrow> 'r connection \<Rightarrow> 'r outcome list" where
  "outcomesOf rid st = map snd (filter (\<lambda>x. fst x = rid) (outcomes st))"

definition elapsed :: "'r event list \<Rightarrow> nat" where
  "elapsed evs = sum_list (map (\<lambda>e. case e of Elapse d \<Rightarrow> d | _ \<Rightarrow> 0) evs)"

text \<open>The operations with a call helper, and the constant each passes to \<^verbatim>\<open>setTimeout\<close>.\<close>

datatype operation = GetModelAndMode | SetModel | SetMode | GetPendingApprovals | RespondToApproval

fun callTimeout :: "operation \<Rightarrow> nat" where
  "callTimeout GetModelAndMode = 3000"
| "callTimeout SetModel = 5000"
| "callTimeout SetMode = 5000"
| "callTimeout GetPendingApprovals = 5000"
| "callTimeout RespondToApproval = 5000"

text \<open>
  The ids in use are below the counter: those of the pending requests, of the settled
  ones and of the timeouts.
\<close>

definition wellFormed :: "'r connection \<Rightarrow> bool" where
  "wellFormed st =
     ((\<forall>j\<in>pending st. j < messageId st) \<and>
      (\<forall>x\<in>set (outcomes st). fst x < messageId st) \<and>
      (\<forall>x\<in>set (timers st). snd x < messageId st))"

text \<open>No request has been settled twice, and a settled request is not pending.\<close>

definition settledOnce :: "'r connection \<Rightarrow> bool" where
  "settledOnce st =
     (distinct (map fst (outcomes st)) \<and> (\<forall>x\<in>set (outcomes st). fst x \<notin> pending st))"

subsection \<open>The open handler of a helper operation\<close>

text \<open>
  Which \<^verbatim>\<open>resolve\<close> settled the promise of the whole operation: the one after an
  accepted evaluation, with its value; the one after the loop over the contexts; or the
  one of the outer \<^verbatim>\<open>catch\<close>, with the message of the error it caught, and of the
  \<open>error\<close> listener. The object that is built there differs between the operations
  and is not modelled: \<open>setModel\<close>, \<open>setMode\<close>, \<open>getPendingApprovals\<close> and
  \<open>respondToApproval\<close> report the message in a failure object, \<open>getModelAndMode\<close>
  resolves to its default record in all three cases.
\<close>

datatype 'r resolution = Value 'r | NoMatch | Failed string

text \<open>
  Where the \<open>open\<close> handler is suspended: at \<^verbatim>\<open>await call('Runtime.enable', {})\<close> for
  the request with the given id; in the pause of 500 ms, until the given time; at
  \<^verbatim>\<open>await call('Runtime.evaluate', ...)\<close> for the request with the given id, made for
  the context at the given index of \<open>contexts\<close>; or not at all, after it has closed the
  socket.
\<close>

datatype stage = Enabling nat | Settling nat | Evaluating nat nat | Finished

record 'r handler =
  conn :: "'r connection"
  stage :: stage
  resolved :: "'r resolution option"

text \<open>\<^verbatim>\<open>resolve(v)\<close> of the outer promise: only the first call has an effect.\<close>

definition resolve :: "'r resolution \<Rightarrow> 'r handler \<Rightarrow> 'r handler" where
  "resolve v h = h\<lparr>resolved := (case resolved h of None \<Rightarrow> Some v | Some w \<Rightarrow> Some w)\<rparr>"

text \<open>\<^verbatim>\<open>ws.close(); resolve(v); return\<close>\<close>

definition closeAndResolve :: "nat \<Rightarrow> 'r resolution \<Rightarrow> 'r handler \<Rightarrow> 'r handler" where
  "closeAndResolve ms v h =
     resolve v (h\<lparr>conn := step (Some ms) Close (conn h), stage := Finished\<rparr>)"

text \<open>
  The head of the loop \<^verbatim>\<open>for (const ctx of contexts)\<close> at index \<open>i\<close>: the next
  evaluation is called, or the loop is over and the handler closes the socket and
  resolves to the default.
\<close>

definition nextContext :: "nat \<Rightarrow> nat \<Rightarrow> 'r handler \<Rightarrow> 'r handler" where
  "nextContext ms i h =
     (if i < length (contexts (conn h))
      then h\<lparr>conn := step (Some ms) (Request ''Runtime.evaluate'') (conn h),
             stage := Evaluating (messageId (conn h)) i\<rparr>
      else closeAndResolve ms NoMatch h)"

text \<open>
  The handler runs on from where it is suspended, if what it waits for has happened.
  A rejected \<open>Runtime.enable\<close> is caught by the outer \<^verbatim>\<open>catch\<close>, which closes the socket
  and resolves to the failure; a rejected \<open>Runtime.evaluate\<close> is swallowed by the
  \<^verbatim>\<open>catch\<close> inside the loop, which goes on with the next context. \<open>accept\<close> is the test
  on the result of an evaluation that ends the operation.
\<close>

definition resume :: "nat \<Rightarrow> ('r \<Rightarrow> bool) \<Rightarrow> 'r handler \<Rightarrow> 'r handler" where
  "resume ms accept h =
     (case stage h of
        Enabling rid \<Rightarrow>
          (case outcomesOf rid (conn h) of
             [] \<Rightarrow> h
           | Resolved res # _ \<Rightarrow> h\<lparr>stage := Settling (clock (conn h) + 500)\<rparr>
           | Rejected message # _ \<Rightarrow> closeAndResolve ms (Failed message) h)
      | Settling t \<Rightarrow> if t \<le> clock (conn h) then nextContext ms 0 h else h
      | Evaluating rid i \<Rightarrow>
          (case outcomesOf rid (conn h) of
             [] \<Rightarrow> h
           | Resolved res # _ \<Rightarrow>
               if accept res then closeAndResolve ms (Value res) h
               else nextContext ms (i + 1) h
           | Rejected message # _ \<Rightarrow> nextContext ms (i + 1) h)
      | Finished \<Rightarrow> h)"

text \<open>
  What reaches the operation from outside: a frame (delivered while the socket is open),
  the passing of one millisecond, or an error of the socket, on which the \<open>error\<close>
  listener resolves the operation.
\<close>

datatype 'r signal = Frame "'r inbound" | Tick | SocketError

definition deliver :: "nat \<Rightarrow> 'r signal \<Rightarrow> 'r handler \<Rightarrow> 'r handler" where
  "deliver ms s h =
     (case s of
        Frame msg \<Rightarrow>
          if wsOpen (conn h) then h\<lparr>conn := step (Some ms) (Message msg) (conn h)\<rparr> else h
      | Tick \<Rightarrow> h\<lparr>conn := step (Some ms) (Elapse 1) (conn h)\<rparr>
      | SocketError \<Rightarrow>
          resolve (Failed ''WebSocket error'') (h\<lparr>conn := step (Some ms) WsError (conn h)\<rparr>))"

text \<open>A signal is delivered to the listeners, and then the handler runs on.\<close>

definition onSignal :: "nat \<Rightarrow> ('r \<Rightarrow> bool) \<Rightarrow> 'r signal \<Rightarrow> 'r handler \<Rightarrow> 'r handler" where
  "onSignal ms accept s h = resume ms accept (deliver ms s h)"

text \<open>The socket opens: the handler makes its first call and waits for it.\<close>

definition onOpen :: "nat \<Rightarrow> 'r handler" where
  "onOpen ms =
     \<lparr>conn = step (Some ms) (Request ''Runtime.enable'') openConnection,
      stage = Enabling (messageId (openConnection :: 'r connection)),
      resolved = None\<rparr>"

definition operate :: "nat \<Rightarrow> ('r \<Rightarrow> bool) \<Rightarrow> 'r signal list \<Rightarrow> 'r handler" where
  "operate ms accept sigs = fold (onSignal ms accept) sigs (onOpen ms)"

text \<open>The request the handler waits for, the milliseconds in a list of signals, and the
  signals that are a response frame for a request.\<close>

definition awaited :: "'r handler \<Rightarrow> nat option" where
  "awaited h =
     (case stage h of
        Enabling rid \<Rightarrow> Some rid
      | Settling t \<Rightarrow> None
      | Evaluating rid i \<Rightarrow> Some rid
      | Finished \<Rightarrow> None)"

definition ticks :: "'r signal list \<Rightarrow> nat" where
  "ticks sigs = sum_list (map (\<lambda>s. case s of Tick \<Rightarrow> 1 | _ \<Rightarrow> 0) sigs)"

definition responds :: "nat \<Rightarrow> 'r signal \<Rightarrow> bool" where
  "responds rid s = (case s of Frame (Response i err res) \<Rightarrow> i = rid | _ \<Rightarrow> False)"

text \<open>
  The request \<open>rid\<close> is pending and unsettled, and its one timeout is due at \<open>t\<close>, in the
  future.
\<close>

definition awaiting :: "'r connection \<Rightarrow> nat \<Rightarrow> nat \<Rightarrow> bool" where
  "awaiting c rid t =
     (rid \<in> pending c \<and> outcomesOf rid c = [] \<and> rid < messageId c \<and>
      (t, rid) \<in> set (timers c) \<and> (\<forall>x\<in>set (timers c). snd x = rid \<longrightarrow> fst x = t) \<and>
      clock c < t)"

text \<open>
  The state of a handler is in order: the ids of its connection are below the counter,
  and the request it waits for is awaited.
\<close>

definition handlerOk :: "'r handler \<Rightarrow> bool" where
  "handlerOk h =
     (wellFormed (conn h) \<and>
      (case awaited h of
         None \<Rightarrow> True
       | Some rid \<Rightarrow> list_ex (\<lambda>x. awaiting (conn h) rid (fst x)) (timers (conn h))))"

text \<open>
  An example of what reaches \<open>setModel\<close>: two contexts are announced,
  \<open>Runtime.enable\<close> is answered, and the pause of 500 ms passes.
\<close>

definition contextsThenPause :: "string signal list" where
  "contextsThenPause =
     [Frame (ContextCreated 7), Frame (ContextCreated 8), Frame (Response 1 None ''{}'')] @
     replicate 500 Tick"

section \<open>Properties\<close>

subsection \<open>String primitives\<close>

lemma startsWith_iff: "startsWith s p \<longleftrightarrow> (\<exists>r. s = p @ r)"
  by (induction s p rule: startsWith.induct) auto

lemma includes_iff: "includesStr s sub \<longleftrightarrow> (\<exists>a b. s = a @ sub @ b)"
proof (induction s)
  case Nil
  then show ?case by auto
next
  case (Cons c s)
  show ?case
  proof
    assume "includesStr (c # s) sub"
    then consider "startsWith (c # s) sub" | "includesStr s sub" by auto
    then show "\<exists>a b. c # s = a @ sub @ b"
    proof cases
      case 1
      then obtain r where "c # s = sub @ r" by (auto simp: startsWith_iff)
      then have "c # s = [] @ sub @ r" by simp
      then show ?thesis by blast
    next
      case 2
      then obtain a b where "s = a @ sub @ b" using Cons.IH by blast
      then have "c # s = (c # a) @ sub @ b" by simp
      then show ?thesis by blast
    qed
  next
    assume "\<exists>a b. c # s = a @ sub @ b"
    then obtain a b where ab: "c # s = a @ sub @ b" by blast
    show "includesStr (c # s) sub"
    proof (cases a)
      case Nil
      with ab have "startsWith (c # s) sub" by (auto simp: startsWith_iff)
      then show ?thesis by simp
    next
      case (Cons x a')
      with ab have "s = a' @ sub @ b" by simp
      then have "includesStr s sub" using Cons.IH by blast
      then show ?thesis by simp
    qed
  qed
qed

text \<open>
  Two strings have the same lower-case form exactly when they are equal up to the case
  of letters.
\<close>

lemma capitals: "map char_of [65..<91 :: nat] = ''ABCDEFGHIJKLMNOPQRSTUVWXYZ''"
  by code_simp

lemma capital_cases:
  assumes "65 \<le> (of_char c :: nat)" and "(of_char c :: nat) \<le> 90"
  shows "c \<in> set ''ABCDEFGHIJKLMNOPQRSTUVWXYZ''"
proof -
  from assms have "(of_char c :: nat) \<in> {65..<91}" by simp
  then have "(of_char c :: nat) \<in> set [65..<91]" by (simp only: set_upt)
  then have "char_of (of_char c :: nat) \<in> set (map char_of [65..<91 :: nat])"
    by (simp only: set_map) (rule imageI)
  then show ?thesis by (simp only: capitals char_of_char)
qed

lemma lowerChar_code:
  "(of_char (lowerChar c) :: nat) =
     (if 65 \<le> (of_char c :: nat) \<and> (of_char c :: nat) \<le> 90 then of_char c + 32
      else of_char c)"
proof (cases "c \<in> set ''ABCDEFGHIJKLMNOPQRSTUVWXYZ''")
  case True
  then show ?thesis by (auto simp: lowerChar_def)
next
  case False
  with capital_cases [of c]
  have "\<not> (65 \<le> (of_char c :: nat) \<and> (of_char c :: nat) \<le> 90)" by blast
  moreover from False have "lowerChar c = c" by (simp add: lowerChar_def)
  ultimately show ?thesis by simp
qed

lemma lowerChar_eq_iff: "lowerChar c = lowerChar d \<longleftrightarrow> sameLetter c d"
proof -
  have "lowerChar c = lowerChar d \<longleftrightarrow> (of_char (lowerChar c) :: nat) = of_char (lowerChar d)"
    by simp
  moreover have "c = d \<longleftrightarrow> (of_char c :: nat) = of_char d" by simp
  ultimately show ?thesis
    unfolding sameLetter_def lowerChar_code by (auto split: if_splits)
qed

lemma toLowerCase_eq_iff:
  "toLowerCase a = toLowerCase b \<longleftrightarrow> caseInsensitivelyEqual a b"
proof -
  have "map lowerChar a = map lowerChar b \<longleftrightarrow>
      list_all2 (=) (map lowerChar a) (map lowerChar b)"
    by (simp only: list_all2_eq)
  also have "\<dots> \<longleftrightarrow> list_all2 (\<lambda>c d. lowerChar c = lowerChar d) a b"
    by (simp only: list_all2_map1 list_all2_map2)
  finally show ?thesis
    by (simp only: toLowerCase_def caseInsensitivelyEqual_def lowerChar_eq_iff)
qed

subsection \<open>Message store\<close>

lemma sliceLast_length: "length (sliceLast k xs) = min k (length xs)"
  by (simp add: sliceLast_def)

lemma sliceLast_suffix: "take (length xs - k) xs @ sliceLast k xs = xs"
  by (simp add: sliceLast_def)

text \<open>
  Claim C10. After every call of \<open>saveMessages\<close> the in-memory store holds at most
  500 messages; a longer store is cut down to its last (most recent) 500 entries, a
  shorter one is untouched; a write that succeeds persists exactly that store, and a
  failing write leaves the file as it was. So a file that held at most 500 messages
  (or did not exist) holds at most 500 after the call.
\<close>

theorem saveMessages_bound:
  "(let st' = saveMessages writeOk st in
      length (messages st') \<le> 500
    \<and> (length (messages st) > 500 \<longrightarrow>
         length (messages st') = 500 \<and>
         (\<exists>old. messages st = old @ messages st'))
    \<and> (length (messages st) \<le> 500 \<longrightarrow> messages st' = messages st)
    \<and> (writeOk \<longrightarrow> messagesFile st' = Some (messages st'))
    \<and> (\<not> writeOk \<longrightarrow> messagesFile st' = messagesFile st)
    \<and> ((\<forall>f. messagesFile st = Some f \<longrightarrow> length f \<le> 500) \<longrightarrow>
         (\<forall>f. messagesFile st' = Some f \<longrightarrow> length f \<le> 500)))"
proof -
  have suffix: "\<exists>old. messages st = old @ sliceLast 500 (messages st)"
    using sliceLast_suffix [of "messages st" 500] by metis
  show ?thesis
    unfolding saveMessages_def Let_def
    using suffix by (auto simp: sliceLast_length)
qed

theorem saveMessages_bound_witness:
  "length (messages (saveMessages True
       \<lparr>messages = replicate 600 (0::nat) @ [1], messagesFile = None\<rparr>)) = 500
   \<and> messagesFile (saveMessages True
       \<lparr>messages = replicate 600 (0::nat) @ [1], messagesFile = None\<rparr>)
     = Some (replicate 499 0 @ [1])
   \<and> messages (saveMessages False
       \<lparr>messages = [1, 2, 3::nat], messagesFile = Some [1, 2]\<rparr>) = [1, 2, 3]
   \<and> messagesFile (saveMessages False
       \<lparr>messages = [1, 2, 3::nat], messagesFile = Some [1, 2]\<rparr>) = Some [1, 2]"
proof -
  let ?big = "\<lparr>messages = replicate 600 (0::nat) @ [1], messagesFile = None\<rparr>"
  let ?small = "\<lparr>messages = [1, 2, 3::nat], messagesFile = Some [1, 2]\<rparr>"
  have len: "length (messages ?big) > 500" by simp
  have big: "length (messages (saveMessages True ?big)) = 500"
    and fl: "messagesFile (saveMessages True ?big) = Some (messages (saveMessages True ?big))"
    using saveMessages_bound [of True ?big] len unfolding Let_def by blast+
  have val: "messages (saveMessages True ?big) = replicate 499 0 @ [1]"
    by (simp add: saveMessages_def sliceLast_def)
  have small: "messages (saveMessages False ?small) = [1, 2, 3]"
    and sfile: "messagesFile (saveMessages False ?small) = Some [1, 2]"
    using saveMessages_bound [of False ?small] unfolding Let_def by simp_all
  show ?thesis using big fl val small sfile by simp
qed

subsection \<open>Target resolver\<close>

lemma isEditor_iff:
  "isEditor t \<longleftrightarrow>
     ttype t = ''page'' \<and> (\<exists>a b. title t = a @ ''Antigravity'' @ b) \<and>
     \<not> (\<exists>a b. title t = a @ ''Launchpad'' @ b) \<and>
     \<not> (\<exists>a b. url t = a @ ''devtools'' @ b)"
  unfolding isEditor_def includes_iff by (rule refl)

lemma find_first:
  "find P xs = Some x \<Longrightarrow> \<exists>pre post. xs = pre @ x # post \<and> P x \<and> (\<forall>u\<in>set pre. \<not> P u)"
proof (induction xs)
  case Nil
  then show ?case by simp
next
  case (Cons y ys)
  show ?case
  proof (cases "P y")
    case True
    with Cons.prems have "y = x" by simp
    with True have "y # ys = [] @ x # ys \<and> P x \<and> (\<forall>u\<in>set []. \<not> P u)" by simp
    then show ?thesis by blast
  next
    case False
    with Cons.prems have "find P ys = Some x" by simp
    then obtain pre post where "ys = pre @ x # post" "P x" "\<forall>u\<in>set pre. \<not> P u"
      using Cons.IH by blast
    with False have "y # ys = (y # pre) @ x # post \<and> P x \<and> (\<forall>u\<in>set (y # pre). \<not> P u)"
      by simp
    then show ?thesis by blast
  qed
qed

lemma find_none: "find P xs = None \<longleftrightarrow> (\<forall>u\<in>set xs. \<not> P u)"
  by (induction xs) auto

text \<open>
  Claim C5. The resolver returns the first target that is a page whose title contains
  "Antigravity" and not "Launchpad" and whose URL does not contain "devtools"; when no
  target is of that kind it returns the first page target; when there is no page target
  it returns none, which is a value and not an error.
\<close>

theorem findEditorTarget_preference:
  "(case findEditorTarget ts of
      None \<Rightarrow> \<forall>u\<in>set ts. ttype u \<noteq> ''page''
    | Some t \<Rightarrow>
        \<exists>pre post. ts = pre @ t # post \<and> ttype t = ''page'' \<and>
          (if \<exists>u\<in>set ts. isEditor u
           then isEditor t \<and> (\<forall>u\<in>set pre. \<not> isEditor u)
           else \<forall>u\<in>set pre. ttype u \<noteq> ''page''))"
proof (cases "find isEditor ts")
  case None
  then have noEd: "\<forall>u\<in>set ts. \<not> isEditor u" by (simp add: find_none)
  from None have eq: "findEditorTarget ts = find (\<lambda>t. ttype t = ''page'') ts"
    by (simp add: findEditorTarget_def)
  show ?thesis
  proof (cases "find (\<lambda>t. ttype t = ''page'') ts")
    case None
    then have "findEditorTarget ts = None" using eq by simp
    moreover have "\<forall>u\<in>set ts. ttype u \<noteq> ''page''"
      using None by (simp add: find_none)
    ultimately show ?thesis by simp
  next
    case (Some t)
    from find_first [OF Some] obtain pre post where
      "ts = pre @ t # post" "ttype t = ''page''" "\<forall>u\<in>set pre. ttype u \<noteq> ''page''"
      by blast
    then show ?thesis using eq Some noEd by auto
  qed
next
  case (Some t)
  from find_first [OF Some] obtain pre post where
    split: "ts = pre @ t # post" "isEditor t" "\<forall>u\<in>set pre. \<not> isEditor u"
    by blast
  then have "t \<in> set ts" by simp
  with split have ex: "\<exists>u\<in>set ts. isEditor u" by blast
  from split have "ttype t = ''page''" by (simp add: isEditor_def)
  with split ex have
    "\<exists>pre post. ts = pre @ t # post \<and> ttype t = ''page'' \<and>
       (if \<exists>u\<in>set ts. isEditor u
        then isEditor t \<and> (\<forall>u\<in>set pre. \<not> isEditor u)
        else \<forall>u\<in>set pre. ttype u \<noteq> ''page'')"
    by auto
  then show ?thesis using Some by (simp add: findEditorTarget_def)
qed

text \<open>
  The resolver on the list of the specification: two pages without the product name in
  the title, the second a Launchpad window, and a devtools target. No target is a main
  editor window, so the first page is returned.
\<close>

theorem findEditorTarget_preference_witness:
  "findEditorTarget
     [\<lparr>ttype = ''page'', title = ''Foo - Bar - x.ts'', url = ''vscode-file://a'',
        webSocketDebuggerUrl = ''ws://localhost:9222/1''\<rparr>,
      \<lparr>ttype = ''page'', title = ''Launchpad - Bar'', url = ''vscode-file://b'',
        webSocketDebuggerUrl = ''ws://localhost:9222/2''\<rparr>,
      \<lparr>ttype = ''other'', title = ''DevTools'', url = ''devtools://devtools/x'',
        webSocketDebuggerUrl = ''ws://localhost:9222/3''\<rparr>]
   = Some \<lparr>ttype = ''page'', title = ''Foo - Bar - x.ts'', url = ''vscode-file://a'',
        webSocketDebuggerUrl = ''ws://localhost:9222/1''\<rparr>
   \<and> findEditorTarget
     [\<lparr>ttype = ''page'', title = ''Launchpad - Antigravity'', url = ''vscode-file://b'',
        webSocketDebuggerUrl = ''ws://localhost:9222/2''\<rparr>,
      \<lparr>ttype = ''page'', title = ''Demo - Antigravity - x.ts'', url = ''vscode-file://a'',
        webSocketDebuggerUrl = ''ws://localhost:9222/1''\<rparr>]
   = Some \<lparr>ttype = ''page'', title = ''Demo - Antigravity - x.ts'', url = ''vscode-file://a'',
        webSocketDebuggerUrl = ''ws://localhost:9222/1''\<rparr>
   \<and> findEditorTarget
     [\<lparr>ttype = ''other'', title = ''DevTools'', url = ''devtools://devtools/x'',
        webSocketDebuggerUrl = ''ws://localhost:9222/3''\<rparr>] = None"
  using findEditorTarget_preference
    [of "[\<lparr>ttype = ''page'', title = ''Foo - Bar - x.ts'', url = ''vscode-file://a'',
        webSocketDebuggerUrl = ''ws://localhost:9222/1''\<rparr>,
      \<lparr>ttype = ''page'', title = ''Launchpad - Bar'', url = ''vscode-file://b'',
        webSocketDebuggerUrl = ''ws://localhost:9222/2''\<rparr>,
      \<lparr>ttype = ''other'', title = ''DevTools'', url = ''devtools://devtools/x'',
        webSocketDebuggerUrl = ''ws://localhost:9222/3''\<rparr>]"]
  by (simp add: findEditorTarget_def isEditor_def)

subsection \<open>Workspace reconciliation loop\<close>

lemma poll_noPath:
  "noPath r \<Longrightarrow>
   poll w b r st = st\<lparr>consecutiveFailures := consecutiveFailures st + 1\<rparr>"
  by (cases r) (simp_all add: noPath_def poll_def)

lemma polls_noPath:
  "\<forall>r\<in>set rs. noPath r \<Longrightarrow>
   polls w b rs st = st\<lparr>consecutiveFailures := consecutiveFailures st + length rs\<rparr>"
proof (induction rs arbitrary: st)
  case Nil
  then show ?case by (simp add: polls_def)
next
  case (Cons r rs)
  then have "polls w b rs (poll w b r st) =
      (poll w b r st)\<lparr>consecutiveFailures := consecutiveFailures (poll w b r st) + length rs\<rparr>"
    by simp
  moreover from Cons.prems have "noPath r" by simp
  ultimately show ?case by (simp add: polls_def poll_noPath)
qed

text \<open>
  Claim C1. A cycle in which the path inference throws or returns a falsy value adds one
  to \<open>consecutiveFailures\<close> and changes nothing else, so after any run of such cycles
  the current path, the last valid path and the broadcasts are as before and the counter
  has grown by the number of cycles. A following cycle that detects the non-empty path
  \<open>d\<close> sets the counter to 0 and records the normalised path as last valid; it
  broadcasts exactly one \<open>workspace_changed\<close> and moves the current path when the
  normalised path is not \<open>pathEquals\<close> to the current one, and broadcasts nothing
  and keeps the current path when it is.
\<close>

theorem poll_reconciliation:
  assumes "\<forall>r\<in>set rs. noPath r" and "d \<noteq> []"
  shows "polls w b rs st = st\<lparr>consecutiveFailures := consecutiveFailures st + length rs\<rparr>
       \<and> (let st' = poll w b (Returned (Some d)) (polls w b rs st);
              p = replaceDoubleBackslash d
          in consecutiveFailures st' = 0
           \<and> lastValidWorkspacePath st' = Some p
           \<and> (if pathEquals w p (workspacePath st)
              then workspacePath st' = workspacePath st \<and> broadcasts st' = broadcasts st
              else workspacePath st' = p
                 \<and> broadcasts st' = broadcasts st @ [workspace_changed p (b p)]))"
  using assms by (simp add: polls_noPath poll_def falsy_def Let_def)

text \<open>
  On Windows, from the current path \<open>C:\srv\<close> (written with \<open>backslash\<close>): three
  cycles without a path (a \<^verbatim>\<open>null\<close>, a throw, an empty string) leave the path alone
  and count 3; detecting \<open>C:\\Demo\<close> then resets the counter and broadcasts once, with
  the path normalised to \<open>C:\Demo\<close>; detecting \<open>c:\SRV\<close> instead broadcasts nothing.
\<close>

theorem poll_reconciliation_witness:
  "polls True (\<lambda>p. rev (takeWhile (\<lambda>c. c \<noteq> backslash) (rev p)))
     [Returned None, Threw, Returned (Some [])]
     \<lparr>workspacePath = ''C:'' @ [backslash] @ ''srv'', lastValidWorkspacePath = None,
      consecutiveFailures = 0, broadcasts = []\<rparr>
   = \<lparr>workspacePath = ''C:'' @ [backslash] @ ''srv'', lastValidWorkspacePath = None,
      consecutiveFailures = 3, broadcasts = []\<rparr>
   \<and> poll True (\<lambda>p. rev (takeWhile (\<lambda>c. c \<noteq> backslash) (rev p)))
       (Returned (Some (''C:'' @ [backslash, backslash] @ ''Demo'')))
       (polls True (\<lambda>p. rev (takeWhile (\<lambda>c. c \<noteq> backslash) (rev p)))
          [Returned None, Threw, Returned (Some [])]
          \<lparr>workspacePath = ''C:'' @ [backslash] @ ''srv'', lastValidWorkspacePath = None,
           consecutiveFailures = 0, broadcasts = []\<rparr>)
   = \<lparr>workspacePath = ''C:'' @ [backslash] @ ''Demo'',
      lastValidWorkspacePath = Some (''C:'' @ [backslash] @ ''Demo''),
      consecutiveFailures = 0,
      broadcasts = [workspace_changed (''C:'' @ [backslash] @ ''Demo'') ''Demo'']\<rparr>
   \<and> poll True (\<lambda>p. rev (takeWhile (\<lambda>c. c \<noteq> backslash) (rev p)))
       (Returned (Some (''c:'' @ [backslash] @ ''SRV'')))
       (polls True (\<lambda>p. rev (takeWhile (\<lambda>c. c \<noteq> backslash) (rev p)))
          [Returned None, Threw, Returned (Some [])]
          \<lparr>workspacePath = ''C:'' @ [backslash] @ ''srv'', lastValidWorkspacePath = None,
           consecutiveFailures = 0, broadcasts = []\<rparr>)
   = \<lparr>workspacePath = ''C:'' @ [backslash] @ ''srv'',
      lastValidWorkspacePath = Some (''c:'' @ [backslash] @ ''SRV''),
      consecutiveFailures = 0, broadcasts = []\<rparr>"
proof -
  let ?b = "\<lambda>p. rev (takeWhile (\<lambda>c. c \<noteq> backslash) (rev p))"
  let ?rs = "[Returned None, Threw, Returned (Some [])]"
  let ?st = "\<lparr>workspacePath = ''C:'' @ [backslash] @ ''srv'', lastValidWorkspacePath = None,
      consecutiveFailures = 0, broadcasts = []\<rparr>"
  have fails: "\<forall>r\<in>set ?rs. noPath r" by (simp add: noPath_def falsy_def)
  have d1: "''C:'' @ [backslash, backslash] @ ''Demo'' \<noteq> []" by simp
  have d2: "''c:'' @ [backslash] @ ''SRV'' \<noteq> []" by simp
  note first = poll_reconciliation
      [of ?rs "''C:'' @ [backslash, backslash] @ ''Demo''" True ?b ?st, OF fails d1]
  note second = poll_reconciliation
      [of ?rs "''c:'' @ [backslash] @ ''SRV''" True ?b ?st, OF fails d2]
  show ?thesis
    using first second
    by (simp add: polls_def poll_def falsy_def pathEquals_def toLowerCase_def
        lowerChar_def backslash_def Let_def)
qed

subsection \<open>Filesystem change watcher\<close>

lemma onChange_quiet:
  "timeouts st = [] \<Longrightarrow>
   armed folder ty f (onChange folder ty f st) \<and>
   sent (onChange folder ty f st) = sent st \<and>
   activeWatcher (onChange folder ty f st) = activeWatcher st \<and>
   now (onChange folder ty f st) = now st"
  by (simp add: onChange_def armed_def clearTimeout_def Let_def split: option.splits)

lemma onChange_armed:
  "armed folder ty0 f0 st \<Longrightarrow>
   armed folder ty f (onChange folder ty f st) \<and>
   sent (onChange folder ty f st) = sent st \<and>
   activeWatcher (onChange folder ty f st) = activeWatcher st \<and>
   now (onChange folder ty f st) = now st"
  by (auto simp: onChange_def armed_def clearTimeout_def Let_def split: option.splits)

lemma elapse_quiet:
  "timeouts st = [] \<Longrightarrow>
   timeouts (elapse d st) = [] \<and> sent (elapse d st) = sent st \<and>
   activeWatcher (elapse d st) = activeWatcher st \<and> now (elapse d st) = now st + d"
  by (simp add: elapse_def Let_def)

text \<open>Less than 300 ms after the timer was set it is still pending and nothing was sent.\<close>

lemma elapse_armed_early:
  "armed folder ty f st \<Longrightarrow> d < 300 \<Longrightarrow>
   (\<exists>h. watchDebounceTimer (elapse d st) = Some h \<and>
        timeouts (elapse d st) =
          [\<lparr>handle = h, due = now st + 300, evType = ty, evFile = f, evFolder = folder\<rparr>]) \<and>
   sent (elapse d st) = sent st \<and>
   activeWatcher (elapse d st) = activeWatcher st"
  by (auto simp: elapse_def armed_def Let_def split: option.splits)

lemma elapse_armed_late:
  "armed folder ty f st \<Longrightarrow> 300 \<le> d \<Longrightarrow>
   timeouts (elapse d st) = [] \<and>
   sent (elapse d st) = sent st @ [file_changed ty f folder (now st + 300)]"
  by (auto simp: elapse_def armed_def fire_def Let_def split: option.splits)

lemma osEvent_after_early:
  assumes "armed folder ty0 f0 st" and "d < 300" and "activeWatcher st = Some folder"
  shows "armed folder ty f (osEvent ty f (elapse d st)) \<and>
         sent (osEvent ty f (elapse d st)) = sent st \<and>
         activeWatcher (osEvent ty f (elapse d st)) = Some folder"
proof -
  from elapse_armed_early [OF assms(1,2)] obtain h where
    h: "watchDebounceTimer (elapse d st) = Some h"
       "timeouts (elapse d st) =
          [\<lparr>handle = h, due = now st + 300, evType = ty0, evFile = f0, evFolder = folder\<rparr>]"
    and s: "sent (elapse d st) = sent st"
    and a: "activeWatcher (elapse d st) = activeWatcher st"
    by blast
  show ?thesis
    using h s a assms(3)
    by (simp add: osEvent_def onChange_def armed_def clearTimeout_def Let_def)
qed

lemma rawEvents_armed:
  assumes "armed folder ty0 f0 st" and "activeWatcher st = Some folder"
    and "\<forall>e\<in>set es. fst e < 300"
  shows "armed folder (fst (snd (last ((0, ty0, f0) # es)))) (snd (snd (last ((0, ty0, f0) # es))))
           (rawEvents es st) \<and>
         sent (rawEvents es st) = sent st"
  using assms
proof (induction es arbitrary: st ty0 f0)
  case Nil
  then show ?case by (simp add: rawEvents_def)
next
  case (Cons e es)
  obtain d ty f where e: "e = (d, ty, f)" by (cases e) auto
  let ?st1 = "osEvent ty f (elapse d st)"
  from Cons.prems e have d: "d < 300" by simp
  from osEvent_after_early [OF Cons.prems(1) d Cons.prems(2)]
  have st1: "armed folder ty f ?st1" "sent ?st1 = sent st" "activeWatcher ?st1 = Some folder"
    by blast+
  from Cons.prems have rest: "\<forall>e\<in>set es. fst e < 300" by simp
  from Cons.IH [OF st1(1) st1(3) rest]
  have "armed folder (fst (snd (last ((0, ty, f) # es)))) (snd (snd (last ((0, ty, f) # es))))
          (rawEvents es ?st1) \<and> sent (rawEvents es ?st1) = sent ?st1" .
  moreover have "rawEvents (e # es) st = rawEvents es ?st1"
    by (simp add: rawEvents_def e)
  moreover have "snd (last ((0, ty0, f0) # e # es)) = snd (last ((0, ty, f) # es))"
    by (simp add: e)
  ultimately show ?case using st1(2) by simp
qed

text \<open>
  Claim C8. With a watcher open and no timeout pending, take a burst of raw events in
  which every event after the first comes less than 300 ms after the one before it.
  Each event leaves exactly one timeout pending, due 300 ms after that event, so nothing
  is broadcast during the burst, and nothing in the 300 ms after its last event; once
  300 ms have passed without a further event, exactly one \<open>file_changed\<close> has been
  broadcast, for the last event of the burst.
\<close>

theorem watcher_debounce:
  assumes "activeWatcher st = Some folder" and "timeouts st = []"
    and "\<forall>e\<in>set es. fst e < 300"
  shows "(let st' = rawEvents ((d, ty, f) # es) st;
              lastTy = fst (snd (last ((d, ty, f) # es)));
              lastFile = snd (snd (last ((d, ty, f) # es)))
          in sent st' = sent st
           \<and> map due (timeouts st') = [now st' + 300]
           \<and> sent (elapse T st') =
               (if T < 300 then sent st
                else sent st @ [file_changed lastTy lastFile folder (now st' + 300)]))"
proof -
  let ?st1 = "osEvent ty f (elapse d st)"
  from elapse_quiet [OF assms(2), of d]
  have q: "timeouts (elapse d st) = []" "sent (elapse d st) = sent st"
    "activeWatcher (elapse d st) = Some folder"
    using assms(1) by simp_all
  from onChange_quiet [OF q(1), of folder ty f]
  have st1: "armed folder ty f ?st1" "sent ?st1 = sent st" "activeWatcher ?st1 = Some folder"
    using q by (simp_all add: osEvent_def)
  let ?st' = "rawEvents ((d, ty, f) # es) st"
  have step: "?st' = rawEvents es ?st1" by (simp add: rawEvents_def)
  have lastEq: "snd (last ((d, ty, f) # es)) = snd (last ((0, ty, f) # es))" by simp
  from rawEvents_armed [OF st1(1) st1(3) assms(3)]
  have arm: "armed folder (fst (snd (last ((d, ty, f) # es)))) (snd (snd (last ((d, ty, f) # es)))) ?st'"
    and snt: "sent ?st' = sent st"
    using st1(2) step lastEq by simp_all
  from arm have dues: "map due (timeouts ?st') = [now ?st' + 300]"
    by (auto simp: armed_def split: option.splits)
  have early: "T < 300 \<Longrightarrow> sent (elapse T ?st') = sent st"
    using elapse_armed_early [OF arm, of T] snt by simp
  have late: "\<not> T < 300 \<Longrightarrow> sent (elapse T ?st') =
      sent st @ [file_changed (fst (snd (last ((d, ty, f) # es))))
        (snd (snd (last ((d, ty, f) # es)))) folder (now ?st' + 300)]"
    using elapse_armed_late [OF arm, of T] snt by simp
  show ?thesis
    unfolding Let_def using snt dues early late by presburger
qed


text \<open>
  Five raw events on a freshly opened watcher of \<open>/ws\<close>, the first after one second and
  the others 100, 100, 250 and 299 ms after their predecessors: nothing is broadcast
  299 ms after the last one, and exactly one \<open>file_changed\<close>, for the last event, after
  300 ms.
\<close>

theorem watcher_debounce_witness:
  "sent (elapse 299 (rawEvents
      [(1000, ''change'', ''a.ts''), (100, ''change'', ''a.ts''), (100, ''change'', ''a.ts''),
       (250, ''rename'', ''a.ts''), (299, ''rename'', ''b.ts'')]
      (startWatching (\<lambda>p. True) True ''/ws''
        \<lparr>activeWatcher = None, watchedPath = None, watchDebounceTimer = None,
         timeouts = [], nextHandle = 0, now = 0, sent = []\<rparr>))) = []
   \<and> sent (elapse 300 (rawEvents
      [(1000, ''change'', ''a.ts''), (100, ''change'', ''a.ts''), (100, ''change'', ''a.ts''),
       (250, ''rename'', ''a.ts''), (299, ''rename'', ''b.ts'')]
      (startWatching (\<lambda>p. True) True ''/ws''
        \<lparr>activeWatcher = None, watchedPath = None, watchDebounceTimer = None,
         timeouts = [], nextHandle = 0, now = 0, sent = []\<rparr>)))
     = [file_changed ''rename'' ''b.ts'' ''/ws'' 2049]"
proof -
  let ?st = "startWatching (\<lambda>p. True) True ''/ws''
        \<lparr>activeWatcher = None, watchedPath = None, watchDebounceTimer = None,
         timeouts = [], nextHandle = 0, now = 0, sent = []\<rparr>"
  let ?es = "[(100, ''change'', ''a.ts''), (100, ''change'', ''a.ts''),
       (250, ''rename'', ''a.ts''), (299, ''rename'', ''b.ts'')] :: (nat \<times> string \<times> string) list"
  have a: "activeWatcher ?st = Some ''/ws''"
    by (simp add: startWatching_def stopWatching_def Let_def)
  have t: "timeouts ?st = []"
    by (simp add: startWatching_def stopWatching_def Let_def)
  have s: "sent ?st = []"
    by (simp add: startWatching_def stopWatching_def Let_def)
  have n: "now ?st = 0"
    by (simp add: startWatching_def stopWatching_def Let_def)
  have b: "\<forall>e\<in>set ?es. fst e < 300" by simp
  have time: "now (rawEvents ((1000, ''change'', ''a.ts'') # ?es) ?st) = 1749"
    by (simp add: rawEvents_def osEvent_def onChange_def elapse_def clearTimeout_def
        startWatching_def stopWatching_def Let_def)
  from watcher_debounce [OF a t b, of 1000 "''change''" "''a.ts''" 299]
       watcher_debounce [OF a t b, of 1000 "''change''" "''a.ts''" 300]
  show ?thesis
    unfolding Let_def using s time by simp
qed


subsection \<open>Model and mode reader\<close>

lemma scanElements_first:
  "scanElements m md els =
     \<lparr>model = (case m of Some x \<Rightarrow> Some x | None \<Rightarrow> find isModelText (scannedTexts els)),
      mode = (case md of Some x \<Rightarrow> Some x | None \<Rightarrow> find isModeText (scannedTexts els))\<rparr>"
proof (induction els arbitrary: m md)
  case Nil
  then show ?case by (simp add: scannedTexts_def split: option.splits)
next
  case (Cons el els)
  show ?case
  proof (cases "length (trim el) < 4 \<or> length (trim el) > 50")
    case True
    then have st: "scannedTexts (el # els) = scannedTexts els"
      by (auto simp: scannedTexts_def)
    show ?thesis using True Cons.IH [of m md] by (simp add: st split: option.splits)
  next
    case False
    then have st: "scannedTexts (el # els) = trim el # scannedTexts els"
      by (auto simp: scannedTexts_def)
    show ?thesis
      using False Cons.IH
      by (cases m; cases md) (auto simp: st Let_def)
  qed
qed

lemma searchContexts_first:
  "searchContexts ctxs =
     (case find (\<lambda>v. model v \<noteq> None) (contextReadouts ctxs) of
        Some v \<Rightarrow> v
      | None \<Rightarrow> defaultReadout)"
proof (induction ctxs rule: searchContexts.induct)
  case 1
  then show ?case by (simp add: contextReadouts_def)
next
  case (2 ctxs)
  then show ?case by (simp add: contextReadouts_def)
next
  case (3 els ctxs)
  then show ?case
    by (simp add: contextReadouts_def SCRIPT_getModelAndMode_def scanElements_first Let_def)
qed


text \<open>
  Claim C6, as the code has it. Within one document the first scanned text matching the
  model pattern and the first matching the mode names win. The reader returns the
  readout of the first context whose readout has a model, with the mode of that same
  context, null when that context shows no mode name; when no context has a model (or
  the runtime could not be enabled) it returns the model "Unknown" and the mode
  "Planning".
\<close>

theorem getModelAndMode_first_match:
  "SCRIPT_getModelAndMode els =
     \<lparr>model = find isModelText (scannedTexts els),
      mode = find isModeText (scannedTexts els)\<rparr>
   \<and> getModelAndMode enabled ctxs =
     (if enabled
      then case find (\<lambda>v. model v \<noteq> None) (contextReadouts ctxs) of
             Some v \<Rightarrow> v
           | None \<Rightarrow> \<lparr>model = Some ''Unknown'', mode = Some ''Planning''\<rparr>
      else \<lparr>model = Some ''Unknown'', mode = Some ''Planning''\<rparr>)"
  by (simp add: SCRIPT_getModelAndMode_def scanElements_first getModelAndMode_def
      searchContexts_first defaultReadout_def split: option.splits)

text \<open>
  A webview whose document shows the mode and then the model, after a context whose
  evaluation failed and a context without a model.
\<close>

theorem getModelAndMode_first_match_witness:
  "getModelAndMode True
     [None, Some [''Settings'', ''Fast''],
      Some [''  Planning '', ''Gemini 3 Pro (High)'', ''Fast'', ''Claude Opus 4.5 (Thinking)'']]
   = \<lparr>model = Some ''Gemini 3 Pro (High)'', mode = Some ''Planning''\<rparr>"
proof -
  have t1: "scannedTexts [''Settings'', ''Fast''] = [''Settings'', ''Fast'']"
    by (simp add: scannedTexts_def trim_def isSpace_def)
  have t2: "scannedTexts [''  Planning '', ''Gemini 3 Pro (High)'', ''Fast'',
        ''Claude Opus 4.5 (Thinking)'']
      = [''Planning'', ''Gemini 3 Pro (High)'', ''Fast'', ''Claude Opus 4.5 (Thinking)'']"
    by (simp add: scannedTexts_def trim_def isSpace_def)
  have m1: "\<not> isModelText ''Settings''" "\<not> isModelText ''Fast''" "\<not> isModelText ''Planning''"
    by (simp_all add: isModelText_def toLowerCase_def lowerChar_def)
  have m2: "isModelText ''Gemini 3 Pro (High)''"
    by (simp add: isModelText_def toLowerCase_def lowerChar_def)
  have d1: "isModeText ''Planning''"
    by (simp add: isModeText_def toLowerCase_def lowerChar_def)
  show ?thesis
    using getModelAndMode_first_match
      [of "[]" True "[None, Some [''Settings'', ''Fast''],
        Some [''  Planning '', ''Gemini 3 Pro (High)'', ''Fast'', ''Claude Opus 4.5 (Thinking)'']]"]
    by (simp add: contextReadouts_def t1 t2 m1 m2 d1)
qed

text \<open>
  The claim says that a category without a match is returned as "Unknown". For the mode
  it is not: a document with a model and no mode name gives a null mode, also when an
  earlier context showed a mode name, and a target without any model gives "Planning".
\<close>

theorem getModelAndMode_mode_counterexample:
  "filter isModeText (scannedTexts [''Claude Sonnet 4.5 (Thinking)'']) = []
   \<and> getModelAndMode True [Some [''Claude Sonnet 4.5 (Thinking)'']]
       = \<lparr>model = Some ''Claude Sonnet 4.5 (Thinking)'', mode = None\<rparr>
   \<and> mode (getModelAndMode True [Some [''Claude Sonnet 4.5 (Thinking)'']]) \<noteq> Some ''Unknown''
   \<and> getModelAndMode True [] = \<lparr>model = Some ''Unknown'', mode = Some ''Planning''\<rparr>
   \<and> mode (getModelAndMode True []) \<noteq> Some ''Unknown''"
proof -
  have t: "scannedTexts [''Claude Sonnet 4.5 (Thinking)''] = [''Claude Sonnet 4.5 (Thinking)'']"
    by (simp add: scannedTexts_def trim_def isSpace_def)
  have m: "isModelText ''Claude Sonnet 4.5 (Thinking)''"
    by (simp add: isModelText_def toLowerCase_def lowerChar_def)
  have d: "\<not> isModeText ''Claude Sonnet 4.5 (Thinking)''"
    by (simp add: isModeText_def toLowerCase_def lowerChar_def)
  show ?thesis
    by (simp add: getModelAndMode_def searchContexts_first contextReadouts_def
        defaultReadout_def t m d)
qed


subsection \<open>Model and mode setter\<close>


lemma firstIndex_Some:
  "firstIndex P xs = Some i \<longleftrightarrow> i < length xs \<and> P (xs ! i) \<and> (\<forall>j<i. \<not> P (xs ! j))"
proof (induction xs arbitrary: i)
  case Nil
  then show ?case by simp
next
  case (Cons x xs)
  show ?case
  proof (cases "P x")
    case True
    then show ?thesis by (cases i) auto
  next
    case False
    show ?thesis
    proof (cases i)
      case 0
      with False show ?thesis by auto
    next
      case (Suc k)
      have "(\<forall>j<Suc k. \<not> P ((x # xs) ! j)) \<longleftrightarrow> (\<forall>j<k. \<not> P (xs ! j))"
        using False by (auto simp: less_Suc_eq_0_disj)
      with False Suc Cons.IH [of k] show ?thesis by auto
    qed
  qed
qed

lemma firstIndex_None: "firstIndex P xs = None \<longleftrightarrow> (\<forall>x\<in>set xs. \<not> P x)"
  by (induction xs) auto

lemma lastIndex_None: "lastIndex P xs = None \<longleftrightarrow> (\<forall>x\<in>set xs. \<not> P x)"
  by (induction xs) (auto split: option.splits)

lemma lastIndex_Some:
  "lastIndex P xs = Some i \<longleftrightarrow>
     i < length xs \<and> P (xs ! i) \<and> (\<forall>j. i < j \<and> j < length xs \<longrightarrow> \<not> P (xs ! j))"
proof (induction xs arbitrary: i)
  case Nil
  then show ?case by simp
next
  case (Cons x xs)
  show ?case
  proof (cases "lastIndex P xs")
    case None
    then have no: "\<forall>y\<in>set xs. \<not> P y" by (simp add: lastIndex_None)
    then have no': "\<And>j. j < length xs \<Longrightarrow> \<not> P (xs ! j)" by simp
    show ?thesis
    proof (cases i)
      case 0
      have "(\<forall>j. 0 < j \<and> j < length (x # xs) \<longrightarrow> \<not> P ((x # xs) ! j))"
      proof (intro allI impI)
        fix j assume "0 < j \<and> j < length (x # xs)"
        then obtain k where "j = Suc k" "k < length xs" by (cases j) auto
        then show "\<not> P ((x # xs) ! j)" using no' by simp
      qed
      with None 0 show ?thesis by auto
    next
      case (Suc k)
      with None no' show ?thesis by auto
    qed
  next
    case (Some m)
    then have m: "m < length xs" "P (xs ! m)" "\<forall>j. m < j \<and> j < length xs \<longrightarrow> \<not> P (xs ! j)"
      using Cons.IH [of m] by auto
    show ?thesis
    proof (cases i)
      case 0
      have "\<not> (\<forall>j. 0 < j \<and> j < length (x # xs) \<longrightarrow> \<not> P ((x # xs) ! j))"
        using m(1,2) by (auto intro!: exI [of _ "Suc m"])
      with Some 0 show ?thesis by auto
    next
      case (Suc k)
      have "(\<forall>j. Suc k < j \<and> j < length (x # xs) \<longrightarrow> \<not> P ((x # xs) ! j)) \<longleftrightarrow>
            (\<forall>j. k < j \<and> j < length xs \<longrightarrow> \<not> P (xs ! j))"
      proof
        assume a: "\<forall>j. Suc k < j \<and> j < length (x # xs) \<longrightarrow> \<not> P ((x # xs) ! j)"
        show "\<forall>j. k < j \<and> j < length xs \<longrightarrow> \<not> P (xs ! j)"
        proof (intro allI impI)
          fix j assume "k < j \<and> j < length xs"
          then have "Suc k < Suc j \<and> Suc j < length (x # xs)" by simp
          with a have "\<not> P ((x # xs) ! Suc j)" by blast
          then show "\<not> P (xs ! j)" by simp
        qed
      next
        assume a: "\<forall>j. k < j \<and> j < length xs \<longrightarrow> \<not> P (xs ! j)"
        show "\<forall>j. Suc k < j \<and> j < length (x # xs) \<longrightarrow> \<not> P ((x # xs) ! j)"
        proof (intro allI impI)
          fix j assume j: "Suc k < j \<and> j < length (x # xs)"
          then obtain l where l: "j = Suc l" by (cases j) auto
          with j have "k < l \<and> l < length xs" by simp
          with a have "\<not> P (xs ! l)" by blast
          with l show "\<not> P ((x # xs) ! j)" by simp
        qed
      qed
      with Some Suc Cons.IH [of k] show ?thesis by auto
    qed
  qed
qed

lemma matchLoop_index:
  "matchLoop T P k b cs =
     (case firstIndex (\<lambda>c. c = T \<or> allPartsMatch P c) cs of
        Some j \<Rightarrow> Some (k + j)
      | None \<Rightarrow>
          (case lastIndex (relaxedMatch P) cs of
             Some j \<Rightarrow> Some (k + j)
           | None \<Rightarrow> b))"
proof (induction cs arbitrary: k b)
  case Nil
  then show ?case by simp
next
  case (Cons c cs)
  show ?case
  proof (cases "c = T \<or> allPartsMatch P c")
    case True
    then show ?thesis by auto
  next
    case False
    then show ?thesis
      using Cons.IH [of "k + 1" "if relaxedMatch P c then Some k else b"]
      by (auto split: option.splits)
  qed
qed

lemma allPartsMatch_iff:
  "allPartsMatch parts candText \<longleftrightarrow> (\<forall>p\<in>set parts. \<exists>a b. candText = a @ p @ b)"
  by (simp add: allPartsMatch_def list_all_iff includes_iff)

text \<open>
  Claim C3, as the code has it. The candidates are tried once, in discovery order. A
  candidate is strong when its text equals the lower-cased requested name or contains
  every part of it, the parts being the runs of letters and digits of at least two
  characters. If some candidate is strong, the first strong one is selected. If none is,
  the last candidate that passes the relaxed check (at least two parts, the first part
  contained, and at least half of the other parts contained) is selected. If there is
  none either, nothing is selected.
\<close>

theorem setModel_bestMatch_selection:
  "(let T = toLowerCase modelName;
        P = targetParts T;
        strong = (\<lambda>c. c = T \<or> allPartsMatch P c)
    in case setModel_bestMatch modelName cands of
         None \<Rightarrow> \<forall>c\<in>set cands. \<not> strong c \<and> \<not> relaxedMatch P c
       | Some i \<Rightarrow>
           i < length cands \<and>
           (if \<exists>c\<in>set cands. strong c
            then strong (cands ! i) \<and> (\<forall>j<i. \<not> strong (cands ! j))
            else relaxedMatch P (cands ! i) \<and>
                 (\<forall>j. i < j \<and> j < length cands \<longrightarrow> \<not> relaxedMatch P (cands ! j))))"
proof -
  define T where "T = toLowerCase modelName"
  define P where "P = targetParts T"
  define strong where "strong = (\<lambda>c. c = T \<or> allPartsMatch P c)"
  have loop: "setModel_bestMatch modelName cands =
      (case firstIndex strong cands of
         Some j \<Rightarrow> Some j
       | None \<Rightarrow> lastIndex (relaxedMatch P) cands)"
    unfolding setModel_bestMatch_def Let_def T_def [symmetric] P_def [symmetric] strong_def
    by (simp add: matchLoop_index split: option.splits)
  have goal: "case setModel_bestMatch modelName cands of
         None \<Rightarrow> \<forall>c\<in>set cands. \<not> strong c \<and> \<not> relaxedMatch P c
       | Some i \<Rightarrow>
           i < length cands \<and>
           (if \<exists>c\<in>set cands. strong c
            then strong (cands ! i) \<and> (\<forall>j<i. \<not> strong (cands ! j))
            else relaxedMatch P (cands ! i) \<and>
                 (\<forall>j. i < j \<and> j < length cands \<longrightarrow> \<not> relaxedMatch P (cands ! j)))"
  proof (cases "firstIndex strong cands")
    case (Some i)
    then have i: "i < length cands" "strong (cands ! i)" "\<forall>j<i. \<not> strong (cands ! j)"
      by (simp_all add: firstIndex_Some)
    then have "\<exists>c\<in>set cands. strong c" using nth_mem by blast
    with i loop Some show ?thesis by simp
  next
    case None
    then have no: "\<forall>c\<in>set cands. \<not> strong c" by (simp add: firstIndex_None)
    show ?thesis
    proof (cases "lastIndex (relaxedMatch P) cands")
      case None
      then have "\<forall>c\<in>set cands. \<not> relaxedMatch P c" by (simp add: lastIndex_None)
      with no loop None \<open>firstIndex strong cands = None\<close> show ?thesis by simp
    next
      case (Some i)
      then have "i < length cands" "relaxedMatch P (cands ! i)"
        "\<forall>j. i < j \<and> j < length cands \<longrightarrow> \<not> relaxedMatch P (cands ! j)"
        by (simp_all add: lastIndex_Some)
      with no loop Some \<open>firstIndex strong cands = None\<close> show ?thesis by simp
    qed
  qed
  show ?thesis
    using goal unfolding Let_def T_def P_def strong_def by simp
qed

text \<open>
  The request "Claude Sonnet 4.5" against the options "Claude Sonnet 4.5 (Thinking)" and
  "Gemini 3 Pro (High)": the parts are "claude" and "sonnet" (the digits are single
  characters and are dropped); the first option is not equal to the name, contains both
  parts, and is selected.
\<close>

theorem setModel_bestMatch_selection_witness:
  "setModel_bestMatch ''Claude Sonnet 4.5''
     [getNorm ''Claude Sonnet 4.5 (Thinking)'', getNorm ''Gemini 3 Pro (High)''] = Some 0
   \<and> targetParts (toLowerCase ''Claude Sonnet 4.5'') = [''claude'', ''sonnet'']
   \<and> getNorm ''Claude Sonnet 4.5 (Thinking)'' \<noteq> toLowerCase ''Claude Sonnet 4.5''
   \<and> allPartsMatch (targetParts (toLowerCase ''Claude Sonnet 4.5''))
        (getNorm ''Claude Sonnet 4.5 (Thinking)'')"
proof -
  have T: "toLowerCase ''Claude Sonnet 4.5'' = ''claude sonnet 4.5''"
    by (simp add: toLowerCase_def lowerChar_def)
  have P: "targetParts ''claude sonnet 4.5'' = [''claude'', ''sonnet'']"
    by (simp add: targetParts_def splitOn_def isAlnum_def)
  have c0: "getNorm ''Claude Sonnet 4.5 (Thinking)'' = ''claude sonnet 4.5 (thinking)''"
    by (simp add: getNorm_def trim_def isSpace_def toLowerCase_def lowerChar_def)
  have c1: "getNorm ''Gemini 3 Pro (High)'' = ''gemini 3 pro (high)''"
    by (simp add: getNorm_def trim_def isSpace_def toLowerCase_def lowerChar_def)
  have a0: "allPartsMatch [''claude'', ''sonnet''] ''claude sonnet 4.5 (thinking)''"
    by (simp add: allPartsMatch_def)
  have a1: "\<not> allPartsMatch [''claude'', ''sonnet''] ''gemini 3 pro (high)''"
    by (simp add: allPartsMatch_def)
  have sel: "setModel_bestMatch ''Claude Sonnet 4.5''
      [''claude sonnet 4.5 (thinking)'', ''gemini 3 pro (high)''] = Some 0"
    using setModel_bestMatch_selection
      [of "''Claude Sonnet 4.5''" "[''claude sonnet 4.5 (thinking)'', ''gemini 3 pro (high)'']"]
    unfolding Let_def T P
    by (auto simp: a0 a1 less_Suc_eq_0_disj split: option.splits if_splits)
  show ?thesis
    using sel by (simp add: T P c0 c1 a0)
qed

text \<open>
  The claim gives exact equality precedence over the all-parts rule, and the first
  candidate of the relaxed tier the win. The loop does neither. With the options
  "claude sonnet 4.5 (thinking)" and "claude sonnet 4.5", the request "Claude Sonnet
  4.5" selects the first, though the second is equal to the request. With the options
  "gemini 3 pro (low)" and "gemini 3 flash (high)", neither of which contains all parts
  of the request "Gemini 3 Pro (High)" and both of which pass the relaxed check, the
  second is selected.
\<close>

theorem setModel_bestMatch_tier_counterexample:
  "setModel_bestMatch ''Claude Sonnet 4.5''
     [''claude sonnet 4.5 (thinking)'', ''claude sonnet 4.5''] = Some 0
   \<and> ''claude sonnet 4.5 (thinking)'' \<noteq> toLowerCase ''Claude Sonnet 4.5''
   \<and> ''claude sonnet 4.5'' = toLowerCase ''Claude Sonnet 4.5''
   \<and> setModel_bestMatch ''Gemini 3 Pro (High)''
     [''gemini 3 pro (low)'', ''gemini 3 flash (high)''] = Some 1
   \<and> targetParts (toLowerCase ''Gemini 3 Pro (High)'') = [''gemini'', ''pro'', ''high'']
   \<and> \<not> allPartsMatch [''gemini'', ''pro'', ''high''] ''gemini 3 pro (low)''
   \<and> \<not> allPartsMatch [''gemini'', ''pro'', ''high''] ''gemini 3 flash (high)''
   \<and> relaxedMatch [''gemini'', ''pro'', ''high''] ''gemini 3 pro (low)''
   \<and> relaxedMatch [''gemini'', ''pro'', ''high''] ''gemini 3 flash (high)''"
proof -
  have T: "toLowerCase ''Claude Sonnet 4.5'' = ''claude sonnet 4.5''"
    by (simp add: toLowerCase_def lowerChar_def)
  have P: "targetParts ''claude sonnet 4.5'' = [''claude'', ''sonnet'']"
    by (simp add: targetParts_def splitOn_def isAlnum_def)
  have a0: "allPartsMatch [''claude'', ''sonnet''] ''claude sonnet 4.5 (thinking)''"
    by (simp add: allPartsMatch_def)
  have T2: "toLowerCase ''Gemini 3 Pro (High)'' = ''gemini 3 pro (high)''"
    by (simp add: toLowerCase_def lowerChar_def)
  have P2: "targetParts ''gemini 3 pro (high)'' = [''gemini'', ''pro'', ''high'']"
    by (simp add: targetParts_def splitOn_def isAlnum_def)
  have n0: "\<not> allPartsMatch [''gemini'', ''pro'', ''high''] ''gemini 3 pro (low)''"
    by (simp add: allPartsMatch_def)
  have n1: "\<not> allPartsMatch [''gemini'', ''pro'', ''high''] ''gemini 3 flash (high)''"
    by (simp add: allPartsMatch_def)
  have r0: "relaxedMatch [''gemini'', ''pro'', ''high''] ''gemini 3 pro (low)''"
    by (simp add: relaxedMatch_def)
  have r1: "relaxedMatch [''gemini'', ''pro'', ''high''] ''gemini 3 flash (high)''"
    by (simp add: relaxedMatch_def)
  show ?thesis
    by (simp add: setModel_bestMatch_def T P a0 T2 P2 n0 n1 r0 r1)
qed

text \<open>
  Claim C9 on \<open>setModel\<close>. When no candidate is selected, the script dispatches Escape
  and returns a failure that consists of the flags and the message "Model option not
  found": it carries no list of the candidates that were looked at.
\<close>

theorem setModel_no_match:
  assumes "setModel_bestMatch modelName (setModel_candidates cursorPointerItems menuItems) = None"
  shows "SCRIPT_setModel modelName cursorPointerItems menuItems =
     (\<lparr>found = True, success = False, error = Some ''Model option not found'',
       selected = None, candidatesFound = None, allTexts = None\<rparr>,
      [DispatchEscape])"
  using assms by (simp add: SCRIPT_setModel_def)

text \<open>
  The dropdown shows two models and the request names a third: \<open>setModel\<close> reports
  the failure without the candidates.
\<close>

theorem setModel_no_match_witness:
  "setModel_candidates [''Gemini 3 Pro (High)'', ''Claude Sonnet 4.5''] []
     = [''gemini 3 pro (high)'', ''claude sonnet 4.5'']
   \<and> SCRIPT_setModel ''Llama 3'' [''Gemini 3 Pro (High)'', ''Claude Sonnet 4.5''] [] =
     (\<lparr>found = True, success = False, error = Some ''Model option not found'',
       selected = None, candidatesFound = None, allTexts = None\<rparr>,
      [DispatchEscape])"
proof -
  have n0: "getNorm ''Gemini 3 Pro (High)'' = ''gemini 3 pro (high)''"
    by (simp add: getNorm_def trim_def isSpace_def toLowerCase_def lowerChar_def)
  have n1: "getNorm ''Claude Sonnet 4.5'' = ''claude sonnet 4.5''"
    by (simp add: getNorm_def trim_def isSpace_def toLowerCase_def lowerChar_def)
  have cs: "setModel_candidates [''Gemini 3 Pro (High)'', ''Claude Sonnet 4.5''] []
     = [''gemini 3 pro (high)'', ''claude sonnet 4.5'']"
    by (simp add: setModel_candidates_def modelKeywords_def n0 n1)
  have T: "toLowerCase ''Llama 3'' = ''llama 3''"
    by (simp add: toLowerCase_def lowerChar_def)
  have P: "targetParts ''llama 3'' = [''llama'']"
    by (simp add: targetParts_def splitOn_def isAlnum_def)
  have none: "setModel_bestMatch ''Llama 3''
      (setModel_candidates [''Gemini 3 Pro (High)'', ''Claude Sonnet 4.5''] []) = None"
    by (simp add: cs setModel_bestMatch_def T P allPartsMatch_def relaxedMatch_def)
  from setModel_no_match [OF none] cs show ?thesis by simp
qed

text \<open>The sibling \<open>setMode\<close> does return the candidates with its failure.\<close>

lemma setMode_no_match:
  assumes "modeLoop (toLowerCase modeName) 0 (setMode_candidates cursorPointerItems) = None"
  shows "SCRIPT_setMode modeName cursorPointerItems =
     (\<lparr>found = True, success = False, error = Some ''Mode option not found'',
       selected = None,
       candidatesFound = Some (map (substring0 50) (setMode_candidates cursorPointerItems)),
       allTexts = Some (take 10 (map (substring0 60) (setMode_texts cursorPointerItems)))\<rparr>,
      [DispatchEscape])"
  using assms by (simp add: SCRIPT_setMode_def Let_def)

lemma setMode_no_match_example:
  "SCRIPT_setMode ''Turbo'' [''Planning'', ''Fast''] =
     (\<lparr>found = True, success = False, error = Some ''Mode option not found'',
       selected = None,
       candidatesFound = Some [''planning'', ''fast''],
       allTexts = Some [''planning'', ''fast'']\<rparr>,
      [DispatchEscape])"
proof -
  have n0: "getNorm ''Planning'' = ''planning''"
    by (simp add: getNorm_def trim_def isSpace_def toLowerCase_def lowerChar_def)
  have n1: "getNorm ''Fast'' = ''fast''"
    by (simp add: getNorm_def trim_def isSpace_def toLowerCase_def lowerChar_def)
  have T: "toLowerCase ''Turbo'' = ''turbo''"
    by (simp add: toLowerCase_def lowerChar_def)
  show ?thesis
    by (simp add: SCRIPT_setMode_def setMode_candidates_def setMode_texts_def
        modeKeywords_def substring0_def n0 n1 T Let_def)
qed


subsection \<open>Workspace path inferencer\<close>


lemma anchorLoop_index:
  "anchorLoop n k parts =
     map_option (\<lambda>j. k + j) (firstIndex (\<lambda>p. toLowerCase p = toLowerCase n) parts)"
proof (induction parts arbitrary: k)
  case Nil
  then show ?case by simp
next
  case (Cons p ps)
  show ?case
  proof (cases "toLowerCase p = toLowerCase n")
    case True
    then show ?thesis by simp
  next
    case False
    then show ?thesis
      using Cons.IH [of "k + 1"] by (simp add: option.map_comp comp_def)
  qed
qed

lemma splitRuns_flag:
  "filter (\<lambda>p. p \<noteq> []) (splitRuns sep [] b t) = filter (\<lambda>p. p \<noteq> []) (splitRuns sep [] b' t)"
  by (cases t) auto

lemma splitRuns_free:
  "\<forall>c\<in>set s. \<not> sep c \<Longrightarrow> s \<noteq> [] \<Longrightarrow>
   splitRuns sep cur b (s @ rest) = splitRuns sep (rev s @ cur) False rest"
proof (induction s arbitrary: cur b)
  case Nil
  then show ?case by simp
next
  case (Cons c s)
  show ?case
  proof (cases "s = []")
    case True
    with Cons.prems show ?thesis by simp
  next
    case False
    with Cons.prems Cons.IH [of "c # cur" False] show ?thesis by simp
  qed
qed

lemma tokens_single:
  assumes "\<forall>c\<in>set s. \<not> sep c" and "s \<noteq> []"
  shows "splitRuns sep [] b s = [s]"
  using splitRuns_free [OF assms, of "[]" b "[]"] by simp

lemma tokens_cons:
  assumes "\<forall>c\<in>set s. \<not> sep c" and "s \<noteq> []" and "sep d"
  shows "filter (\<lambda>p. p \<noteq> []) (splitRuns sep [] b (s @ d # rest)) =
         s # filter (\<lambda>p. p \<noteq> []) (splitRuns sep [] b rest)"
proof -
  have "splitRuns sep [] b (s @ d # rest) = s # splitRuns sep [] True rest"
    using splitRuns_free [OF assms(1,2), of "[]" b "d # rest"] assms(3) by simp
  then show ?thesis
    using assms(2) splitRuns_flag [of sep True rest b] by simp
qed

lemma tokens_join:
  assumes "sep d"
  shows "\<forall>s\<in>set segs. s \<noteq> [] \<and> (\<forall>c\<in>set s. \<not> sep c) \<Longrightarrow>
         filter (\<lambda>p. p \<noteq> []) (splitRuns sep [] b (join [d] segs)) = segs"
proof (induction segs)
  case Nil
  then show ?case by simp
next
  case (Cons x xs)
  then have x: "\<forall>c\<in>set x. \<not> sep c" "x \<noteq> []" by simp_all
  show ?case
  proof (cases xs)
    case Nil
    then show ?thesis using tokens_single [OF x, of b] x(2) by simp
  next
    case (Cons y ys)
    from Cons.prems Cons.IH
    have rest: "filter (\<lambda>p. p \<noteq> []) (splitRuns sep [] b (join [d] xs)) = xs"
      by simp
    have "join [d] (x # xs) = x @ d # join [d] xs" using Cons by simp
    then show ?thesis
      using tokens_cons [OF x assms, of b "join [d] xs"] rest by simp
  qed
qed

lemma tokens_lead:
  "sep d \<Longrightarrow> filter (\<lambda>p. p \<noteq> []) (splitRuns sep [] False (d # rest)) =
     filter (\<lambda>p. p \<noteq> []) (splitRuns sep [] False rest)"
  using splitRuns_flag [of sep True rest False] by simp

text \<open>A path written from proper segments splits into these segments again.\<close>

lemma pathParts_pathOfSegments:
  assumes "\<forall>s\<in>set segs. s \<noteq> [] \<and> (\<forall>c\<in>set s. \<not> isSep w c)" and "w \<longrightarrow> segs \<noteq> []"
  shows "pathParts w (pathOfSegments w segs) = segs"
proof (cases w)
  case True
  with assms(2) obtain x xs where segs: "segs = x # xs" by (cases segs) auto
  with assms(1) have x: "\<forall>c\<in>set x. \<not> isSep w c" "x \<noteq> []"
    and xs: "\<forall>s\<in>set xs. s \<noteq> [] \<and> (\<forall>c\<in>set s. \<not> isSep w c)" by simp_all
  have d: "isSep w backslash" using True by (simp add: isSep_def)
  have a: "filter (\<lambda>p. p \<noteq> []) (splitRuns (isSep w) [] False (x @ backslash # join [backslash] xs))
      = x # filter (\<lambda>p. p \<noteq> []) (splitRuns (isSep w) [] False (join [backslash] xs))"
    by (rule tokens_cons [OF x d])
  have b: "filter (\<lambda>p. p \<noteq> []) (splitRuns (isSep w) [] False (join [backslash] xs)) = xs"
    by (rule tokens_join [OF d xs])
  have "pathOfSegments w segs = x @ backslash # join [backslash] xs"
    using True by (simp add: pathOfSegments_def segs)
  then show ?thesis
    using a b by (simp add: pathParts_def splitOn_def segs)
next
  case False
  then have d: "isSep w (CHR ''/'')" by (simp add: isSep_def)
  have a: "filter (\<lambda>p. p \<noteq> []) (splitRuns (isSep w) [] False (CHR ''/'' # join ''/'' segs))
      = filter (\<lambda>p. p \<noteq> []) (splitRuns (isSep w) [] False (join ''/'' segs))"
    using tokens_lead [of "isSep w" "CHR ''/''" "join ''/'' segs"] d by blast
  have b: "filter (\<lambda>p. p \<noteq> []) (splitRuns (isSep w) [] False (join ''/'' segs)) = segs"
    by (rule tokens_join [OF d assms(1)])
  have "pathOfSegments w segs = CHR ''/'' # join ''/'' segs"
    using False by (simp add: pathOfSegments_def)
  then show ?thesis
    using a b by (simp add: pathParts_def splitOn_def)
qed

lemma splitRuns_proper:
  "\<forall>c\<in>set cur. \<not> sep c \<Longrightarrow> s \<in> set (splitRuns sep cur b t) \<Longrightarrow> c \<in> set s \<Longrightarrow> \<not> sep c"
proof (induction t arbitrary: cur b)
  case Nil
  then show ?case by auto
next
  case (Cons x t)
  show ?case
  proof (cases "sep x")
    case True
    show ?thesis
    proof (cases b)
      case True
      with \<open>sep x\<close> Cons.prems have "s \<in> set (splitRuns sep [] True t)" by simp
      with Cons.IH [of "[]" True] Cons.prems(3) show ?thesis by simp
    next
      case False
      with \<open>sep x\<close> Cons.prems have "s = rev cur \<or> s \<in> set (splitRuns sep [] True t)" by simp
      then show ?thesis
      proof
        assume "s = rev cur"
        with Cons.prems(1,3) show ?thesis by simp
      next
        assume "s \<in> set (splitRuns sep [] True t)"
        with Cons.IH [of "[]" True] Cons.prems(3) show ?thesis by simp
      qed
    qed
  next
    case False
    with Cons.prems have "s \<in> set (splitRuns sep (x # cur) False t)" by simp
    moreover have "\<forall>c\<in>set (x # cur). \<not> sep c" using False Cons.prems(1) by simp
    ultimately show ?thesis using Cons.IH [of "x # cur" False] Cons.prems(3) by blast
  qed
qed

lemma pathParts_proper:
  "\<forall>s\<in>set (pathParts w p). s \<noteq> [] \<and> (\<forall>c\<in>set s. \<not> isSep w c)"
proof
  fix s assume "s \<in> set (pathParts w p)"
  then have ne: "s \<noteq> []" and mem: "s \<in> set (splitRuns (isSep w) [] False p)"
    by (simp_all add: pathParts_def splitOn_def)
  have "\<And>c. c \<in> set s \<Longrightarrow> \<not> isSep w c"
    using splitRuns_proper [of "[]" "isSep w" s False p] mem by simp
  with ne show "s \<noteq> [] \<and> (\<forall>c\<in>set s. \<not> isSep w c)" by blast
qed

lemma render_found:
  "i < length parts \<Longrightarrow>
   (if w then firstOrUndefined parts @ [backslash] @ join [backslash] (slice 1 (i + 1) parts)
    else ''/'' @ join ''/'' (slice 0 (i + 1) parts))
   = pathOfSegments w (take (Suc i) parts)"
  by (cases parts) (simp_all add: firstOrUndefined_def slice_def pathOfSegments_def)

lemma render_parent:
  "w \<longrightarrow> 2 \<le> length parts \<Longrightarrow>
   (if w then firstOrUndefined (sliceButLast parts) @ [backslash] @
               join [backslash] (drop 1 (sliceButLast parts))
    else ''/'' @ join ''/'' (sliceButLast parts))
   = pathOfSegments w (butlast parts)"
proof -
  assume len: "w \<longrightarrow> 2 \<le> length parts"
  have sb: "sliceButLast parts = butlast parts"
    by (simp add: sliceButLast_def butlast_conv_take)
  show ?thesis
  proof (cases w)
    case True
    with len have "butlast parts \<noteq> []" by (cases parts) auto
    then obtain x xs where "butlast parts = x # xs" by (cases "butlast parts") auto
    with True show ?thesis by (simp add: sb firstOrUndefined_def pathOfSegments_def)
  next
    case False
    then show ?thesis by (simp add: sb pathOfSegments_def)
  qed
qed

lemma workspaceRoot_found:
  assumes "anchor \<noteq> []"
    and "firstIndex (\<lambda>p. toLowerCase p = toLowerCase anchor)
           (pathParts (isWindows data) (path data)) = Some i"
  shows "workspaceRoot (Some anchor) data =
     pathOfSegments (isWindows data) (take (Suc i) (pathParts (isWindows data) (path data)))"
proof -
  from assms(2) have i: "i < length (pathParts (isWindows data) (path data))"
    by (simp add: firstIndex_Some)
  show ?thesis
    using assms render_found [OF i, of "isWindows data"]
    by (simp add: workspaceRoot_def falsy_def anchorLoop_index Let_def)
qed

lemma workspaceRoot_fallback:
  assumes "falsy projectName \<or>
      firstIndex (\<lambda>p. toLowerCase p = toLowerCase (the projectName))
           (pathParts (isWindows data) (path data)) = None"
    and "isWindows data \<longrightarrow> 2 \<le> length (pathParts (isWindows data) (path data))"
  shows "workspaceRoot projectName data =
     pathOfSegments (isWindows data) (butlast (pathParts (isWindows data) (path data)))"
  using assms(1) render_parent [OF assms(2)]
  by (auto simp: workspaceRoot_def anchorLoop_index Let_def)

lemma proper_sub:
  assumes "set segs \<subseteq> set (pathParts w p)"
  shows "\<forall>s\<in>set segs. s \<noteq> [] \<and> (\<forall>c\<in>set s. \<not> isSep w c)"
  using assms pathParts_proper [of w p] by blast

lemma firstIndex_split:
  "\<forall>p\<in>set pre. \<not> P p \<Longrightarrow> P s \<Longrightarrow> firstIndex P (pre @ s # post) = Some (length pre)"
  by (induction pre) simp_all

text \<open>
  Claim C4. Let the detected file path split into the segments \<open>parts\<close>, and let the
  project name be a non-empty anchor. If \<open>s\<close> is the first segment equal to the anchor up
  to the case of letters (\<open>caseInsensitivelyEqual\<close>, the notion of the specification; the
  code compares the lower-case forms), the inferencer returns the path written from the
  segments up to and including \<open>s\<close>, and that path splits into exactly these segments.
  If no segment is equal to the anchor up to case, or there is no project name, it
  returns the path written from all segments but the last, the parent directory (on
  Windows for a path of at least two segments, a drive and a name).
\<close>

theorem workspaceRoot_truncates:
  assumes "anchor \<noteq> []"
  shows "(let w = isWindows data;
              parts = pathParts w (path data);
              same = (\<lambda>p. caseInsensitivelyEqual p anchor)
          in (parts = pre @ s # post \<and> same s \<and> (\<forall>p\<in>set pre. \<not> same p) \<longrightarrow>
                workspaceRoot (Some anchor) data = pathOfSegments w (pre @ [s]) \<and>
                pathParts w (workspaceRoot (Some anchor) data) = pre @ [s])
           \<and> ((\<forall>p\<in>set parts. \<not> same p) \<and> (w \<longrightarrow> 2 \<le> length parts) \<longrightarrow>
                workspaceRoot (Some anchor) data = pathOfSegments w (butlast parts) \<and>
                pathParts w (workspaceRoot (Some anchor) data) = butlast parts)
           \<and> ((w \<longrightarrow> 2 \<le> length parts) \<longrightarrow>
                workspaceRoot None data = pathOfSegments w (butlast parts)))"
proof -
  define w where "w = isWindows data"
  define parts where "parts = pathParts w (path data)"
  define same where "same = (\<lambda>p. toLowerCase p = toLowerCase anchor)"
  have found: "workspaceRoot (Some anchor) data = pathOfSegments w (pre @ [s]) \<and>
      pathParts w (workspaceRoot (Some anchor) data) = pre @ [s]"
    if "parts = pre @ s # post \<and> same s \<and> (\<forall>p\<in>set pre. \<not> same p)"
  proof -
    from that have "firstIndex same parts = Some (length pre)"
      by (simp add: firstIndex_split)
    moreover from that have "take (Suc (length pre)) parts = pre @ [s]" by simp
    ultimately have r: "workspaceRoot (Some anchor) data = pathOfSegments w (pre @ [s])"
      using workspaceRoot_found [OF assms, of data "length pre"]
      by (simp add: w_def parts_def same_def)
    from that have "set (pre @ [s]) \<subseteq> set (pathParts w (path data))"
      unfolding parts_def [symmetric] by auto
    then have segsOk: "\<forall>x\<in>set (pre @ [s]). x \<noteq> [] \<and> (\<forall>c\<in>set x. \<not> isSep w c)"
      by (rule proper_sub)
    have "pathParts w (pathOfSegments w (pre @ [s])) = pre @ [s]"
      using pathParts_pathOfSegments [OF segsOk] by simp
    with r show ?thesis by simp
  qed
  have parent: "workspaceRoot (Some anchor) data = pathOfSegments w (butlast parts) \<and>
      pathParts w (workspaceRoot (Some anchor) data) = butlast parts"
    if "(\<forall>p\<in>set parts. \<not> same p) \<and> (w \<longrightarrow> 2 \<le> length parts)"
  proof -
    from that have "firstIndex same parts = None" by (simp add: firstIndex_None)
    then have r: "workspaceRoot (Some anchor) data = pathOfSegments w (butlast parts)"
      using workspaceRoot_fallback [of "Some anchor" data] that
      by (simp add: w_def parts_def same_def)
    have "set (butlast parts) \<subseteq> set (pathParts w (path data))"
      unfolding parts_def by (auto dest: in_set_butlastD)
    then have segsOk: "\<forall>s\<in>set (butlast parts). s \<noteq> [] \<and> (\<forall>c\<in>set s. \<not> isSep w c)"
      by (rule proper_sub)
    from that have "w \<longrightarrow> butlast parts \<noteq> []" by (cases parts) auto
    then have "pathParts w (pathOfSegments w (butlast parts)) = butlast parts"
      using pathParts_pathOfSegments [OF segsOk] by simp
    with r show ?thesis by simp
  qed
  have noName: "workspaceRoot None data = pathOfSegments w (butlast parts)"
    if "w \<longrightarrow> 2 \<le> length parts"
    using workspaceRoot_fallback [of None data] that
    by (simp add: w_def parts_def falsy_def)
  show ?thesis
    unfolding Let_def toLowerCase_eq_iff [symmetric] w_def [symmetric] parts_def [symmetric]
    using found parent noName unfolding same_def by blast
qed

text \<open>
  The tab label \<open>C:\Users\a\Projects\Demo\src\index.ts\<close> (written with
  \<open>backslash\<close>). Under the window title "Demo - Antigravity - index.ts" the anchor is
  "Demo" and the result is \<open>C:\Users\a\Projects\Demo\<close>. Under the title
  "DEMO - Antigravity - index.ts" the anchor "DEMO" differs from the segment "Demo" in
  the case of three letters, and neither is in lower case: the segment is still the
  anchor and the result is the same, with the segment as the path writes it. Under the
  title "Other - Antigravity - index.ts" no segment is the anchor and the result is the
  parent directory \<open>C:\Users\a\Projects\Demo\src\<close>.
\<close>

theorem workspaceRoot_truncates_witness:
  "getWorkspacePath (\<lambda>u. None) ''Demo - Antigravity - index.ts''
     [(''C:'' @ [backslash] @ ''Users'' @ [backslash] @ ''a'' @ [backslash] @ ''Projects'' @
       [backslash] @ ''Demo'' @ [backslash] @ ''src'' @ [backslash] @ ''index.ts'', [])] []
   = Some (''C:'' @ [backslash] @ ''Users'' @ [backslash] @ ''a'' @ [backslash] @ ''Projects'' @
       [backslash] @ ''Demo'')
   \<and> ''DEMO'' \<noteq> ''Demo''
   \<and> getWorkspacePath (\<lambda>u. None) ''DEMO - Antigravity - index.ts''
     [(''C:'' @ [backslash] @ ''Users'' @ [backslash] @ ''a'' @ [backslash] @ ''Projects'' @
       [backslash] @ ''Demo'' @ [backslash] @ ''src'' @ [backslash] @ ''index.ts'', [])] []
   = Some (''C:'' @ [backslash] @ ''Users'' @ [backslash] @ ''a'' @ [backslash] @ ''Projects'' @
       [backslash] @ ''Demo'')
   \<and> getWorkspacePath (\<lambda>u. None) ''Other - Antigravity - index.ts''
     [(''C:'' @ [backslash] @ ''Users'' @ [backslash] @ ''a'' @ [backslash] @ ''Projects'' @
       [backslash] @ ''Demo'' @ [backslash] @ ''src'' @ [backslash] @ ''index.ts'', [])] []
   = Some (''C:'' @ [backslash] @ ''Users'' @ [backslash] @ ''a'' @ [backslash] @ ''Projects'' @
       [backslash] @ ''Demo'' @ [backslash] @ ''src'')"
proof -
  let ?label = "''C:'' @ [backslash] @ ''Users'' @ [backslash] @ ''a'' @ [backslash] @
       ''Projects'' @ [backslash] @ ''Demo'' @ [backslash] @ ''src'' @ [backslash] @ ''index.ts''"
  let ?data = "\<lparr>path = ?label, isWindows = True\<rparr>"
  let ?pre = "[''C:'', ''Users'', ''a'', ''Projects'']"
  let ?post = "[''src'', ''index.ts'']"
  have scan: "SCRIPT_getWorkspacePath (\<lambda>u. None) [(?label, [])] [] = Some ?data"
    by (simp add: SCRIPT_getWorkspacePath_def scanSource_def isLetter_def cutAtDelims_def
        trim_def isSpace_def backslash_def)
  have parts: "pathParts True ?label = ?pre @ ''Demo'' # ?post"
    by (simp add: pathParts_def splitOn_def isSep_def backslash_def)
  have n1: "projectNameOf ''Demo - Antigravity - index.ts'' = Some ''Demo''"
    by (simp add: projectNameOf_def trim_def isSpace_def)
  have n2: "projectNameOf ''Other - Antigravity - index.ts'' = Some ''Other''"
    by (simp add: projectNameOf_def trim_def isSpace_def)
  have low: "map toLowerCase (?pre @ ''Demo'' # ?post) =
      [''c:'', ''users'', ''a'', ''projects'', ''demo'', ''src'', ''index.ts'']"
    "toLowerCase ''Demo'' = ''demo''" "toLowerCase ''Other'' = ''other''"
    by (simp_all add: toLowerCase_def lowerChar_def)
  have n3: "projectNameOf ''DEMO - Antigravity - index.ts'' = Some ''DEMO''"
    by (simp add: projectNameOf_def trim_def isSpace_def)
  have up: "toLowerCase ''DEMO'' = ''demo''"
    by (simp add: toLowerCase_def lowerChar_def)
  have ne: "''Demo'' \<noteq> []" "''Other'' \<noteq> []" "''DEMO'' \<noteq> []" by simp_all
  from workspaceRoot_truncates [OF ne(1), of ?data ?pre "''Demo''" ?post]
  have "workspaceRoot (Some ''Demo'') ?data = pathOfSegments True (?pre @ [''Demo''])"
    unfolding Let_def toLowerCase_eq_iff [symmetric] using parts low by simp
  then have r1: "workspaceRoot (Some ''Demo'') ?data =
      ''C:'' @ [backslash] @ ''Users'' @ [backslash] @ ''a'' @ [backslash] @ ''Projects'' @
       [backslash] @ ''Demo''"
    by (simp add: pathOfSegments_def)
  from workspaceRoot_truncates [OF ne(2), of ?data "[]" "[]" "[]"]
  have "workspaceRoot (Some ''Other'') ?data = pathOfSegments True (butlast (?pre @ ''Demo'' # ?post))"
    unfolding Let_def toLowerCase_eq_iff [symmetric] using parts low by simp
  then have r2: "workspaceRoot (Some ''Other'') ?data =
      ''C:'' @ [backslash] @ ''Users'' @ [backslash] @ ''a'' @ [backslash] @ ''Projects'' @
       [backslash] @ ''Demo'' @ [backslash] @ ''src''"
    by (simp add: pathOfSegments_def)
  from workspaceRoot_truncates [OF ne(3), of ?data ?pre "''Demo''" ?post]
  have "workspaceRoot (Some ''DEMO'') ?data = pathOfSegments True (?pre @ [''Demo''])"
    unfolding Let_def toLowerCase_eq_iff [symmetric] using parts low up by simp
  then have r3: "workspaceRoot (Some ''DEMO'') ?data =
      ''C:'' @ [backslash] @ ''Users'' @ [backslash] @ ''a'' @ [backslash] @ ''Projects'' @
       [backslash] @ ''Demo''"
    by (simp add: pathOfSegments_def)
  show ?thesis
    using scan r1 r2 r3 by (simp add: getWorkspacePath_def n1 n2 n3)
qed

text \<open>
  Outside the claim: on Windows a detected text of a single segment has no parent
  segment, and the fallback concatenates \<^verbatim>\<open>undefined\<close>.
\<close>

lemma workspaceRoot_single_segment:
  "workspaceRoot None \<lparr>path = ''e: notes'', isWindows = True\<rparr> = ''undefined'' @ [backslash]"
  by (simp add: workspaceRoot_def falsy_def pathParts_def splitOn_def isSep_def backslash_def
      sliceButLast_def firstOrUndefined_def Let_def)


subsection \<open>Remote call transport\<close>

text \<open>What one step does to the counter, the socket flag and the clock.\<close>

lemma fold_onTimeout_frame:
  "messageId (fold onTimeout ids st) = messageId st \<and>
   wsOpen (fold onTimeout ids st) = wsOpen st \<and>
   clock (fold onTimeout ids st) = clock st \<and>
   timers (fold onTimeout ids st) = timers st \<and>
   frames (fold onTimeout ids st) = frames st"
  by (induction ids arbitrary: st) (simp_all add: onTimeout_def)

lemma advance_frame:
  "messageId (advance d st) = messageId st \<and>
   wsOpen (advance d st) = wsOpen st \<and>
   clock (advance d st) = clock st + d \<and>
   timers (advance d st) = filter (\<lambda>x. \<not> fst x \<le> clock st + d) (timers st) \<and>
   frames (advance d st) = frames st"
  by (simp add: advance_def Let_def fold_onTimeout_frame)

text \<open>A timeout of another request does not touch the request \<open>i\<close>.\<close>

lemma onTimeout_other:
  "j \<noteq> i \<Longrightarrow>
   (i \<in> pending (onTimeout j st)) = (i \<in> pending st) \<and>
   outcomesOf i (onTimeout j st) = outcomesOf i st"
  by (simp add: onTimeout_def outcomesOf_def)

lemma onTimeout_self:
  "i \<in> pending st \<Longrightarrow>
   i \<notin> pending (onTimeout i st) \<and>
   outcomesOf i (onTimeout i st) = outcomesOf i st @ [Rejected ''Timeout'']"
  by (simp add: onTimeout_def outcomesOf_def)

lemma onTimeout_done: "i \<notin> pending st \<Longrightarrow> onTimeout i st = st"
  by (simp add: onTimeout_def)

lemma fold_onTimeout_absent:
  "i \<notin> set ids \<Longrightarrow>
   (i \<in> pending (fold onTimeout ids st)) = (i \<in> pending st) \<and>
   outcomesOf i (fold onTimeout ids st) = outcomesOf i st"
proof (induction ids arbitrary: st)
  case Nil
  then show ?case by simp
next
  case (Cons j ids)
  then have "j \<noteq> i" "i \<notin> set ids" by auto
  with Cons.IH [of "onTimeout j st"] onTimeout_other [of j i st] show ?case by simp
qed

lemma fold_onTimeout_settled:
  "i \<notin> pending st \<Longrightarrow>
   i \<notin> pending (fold onTimeout ids st) \<and>
   outcomesOf i (fold onTimeout ids st) = outcomesOf i st"
proof (induction ids arbitrary: st)
  case Nil
  then show ?case by simp
next
  case (Cons j ids)
  show ?case
  proof (cases "j = i")
    case True
    with Cons.prems have "onTimeout j st = st" by (simp add: onTimeout_done)
    with Cons.IH [of st] Cons.prems show ?thesis by simp
  next
    case False
    with Cons.prems onTimeout_other [of j i st]
    have "i \<notin> pending (onTimeout j st)" "outcomesOf i (onTimeout j st) = outcomesOf i st"
      by simp_all
    with Cons.IH [of "onTimeout j st"] show ?thesis by simp
  qed
qed

lemma fold_onTimeout_fires:
  "i \<in> set ids \<Longrightarrow> i \<in> pending st \<Longrightarrow>
   i \<notin> pending (fold onTimeout ids st) \<and>
   outcomesOf i (fold onTimeout ids st) = outcomesOf i st @ [Rejected ''Timeout'']"
proof (induction ids arbitrary: st)
  case Nil
  then show ?case by simp
next
  case (Cons j ids)
  show ?case
  proof (cases "j = i")
    case True
    from onTimeout_self [OF Cons.prems(2)]
    have s: "i \<notin> pending (onTimeout i st)"
      "outcomesOf i (onTimeout i st) = outcomesOf i st @ [Rejected ''Timeout'']"
      by simp_all
    from fold_onTimeout_settled [OF s(1), of ids] s(2) True show ?thesis by simp
  next
    case False
    with Cons.prems have mem: "i \<in> set ids" by simp
    from False Cons.prems(2) onTimeout_other [of j i st]
    have "i \<in> pending (onTimeout j st)" "outcomesOf i (onTimeout j st) = outcomesOf i st"
      by simp_all
    with Cons.IH [OF mem, of "onTimeout j st"] show ?thesis by simp
  qed
qed

lemma wellFormed_open: "wellFormed (openConnection :: 'r connection)"
  by (simp add: wellFormed_def openConnection_def)

lemma onTimeout_wellFormed: "wellFormed st \<Longrightarrow> wellFormed (onTimeout j st)"
  by (auto simp: wellFormed_def onTimeout_def)

lemma fold_onTimeout_wellFormed: "wellFormed st \<Longrightarrow> wellFormed (fold onTimeout ids st)"
  by (induction ids arbitrary: st) (simp_all add: onTimeout_wellFormed)

lemma advance_wellFormed:
  assumes "wellFormed st"
  shows "wellFormed (advance d st)"
proof -
  let ?st1 = "st\<lparr>clock := clock st + d,
                  timers := filter (\<lambda>x. \<not> fst x \<le> clock st + d) (timers st)\<rparr>"
  from assms have "wellFormed ?st1" by (auto simp: wellFormed_def)
  then show ?thesis
    by (simp add: advance_def Let_def fold_onTimeout_wellFormed)
qed

lemma send_wellFormed: "wellFormed st \<Longrightarrow> wellFormed (send m st)"
  by (auto simp: wellFormed_def send_def Let_def less_Suc_eq)

lemma call_wellFormed: "wellFormed st \<Longrightarrow> wellFormed (call ms m st)"
  by (auto simp: wellFormed_def call_def send_def Let_def less_Suc_eq)

lemma settle_wellFormed: "wellFormed st \<Longrightarrow> j \<in> pending st \<Longrightarrow> wellFormed (settle j err res st)"
  by (auto simp: wellFormed_def settle_def)

lemma step_wellFormed:
  assumes "wellFormed st"
  shows "wellFormed (step tmo e st)"
proof (cases e)
  case (Request m)
  then show ?thesis
    using assms by (simp add: step_def send_wellFormed call_wellFormed split: option.splits)
next
  case (Message msg)
  show ?thesis
  proof (cases msg)
    case (Response j err res)
    with Message assms show ?thesis
      by (simp add: step_def onMessage_def onMessageCtx_def settle_wellFormed
          split: option.splits)
  next
    case (ContextCreated c)
    with Message assms show ?thesis
      by (auto simp: step_def onMessage_def onMessageCtx_def wellFormed_def
          split: option.splits)
  next
    case OtherEvent
    with Message assms show ?thesis
      by (simp add: step_def onMessage_def onMessageCtx_def split: option.splits)
  qed
next
  case (Elapse d)
  then show ?thesis using assms by (simp add: step_def advance_wellFormed)
next
  case WsError
  then show ?thesis using assms by (simp add: step_def wellFormed_def)
next
  case Close
  then show ?thesis using assms by (simp add: step_def wellFormed_def)
qed

lemma run_wellFormed: "wellFormed st \<Longrightarrow> wellFormed (run tmo evs st)"
  by (induction evs arbitrary: st) (simp_all add: run_def step_wellFormed)

text \<open>
  A step that is neither a response to the request \<open>i\<close> nor the passing of time leaves
  the request as it is.
\<close>

lemma step_other:
  assumes "i < messageId st" and "\<not> answers i e" and "\<forall>d. e \<noteq> Elapse d"
  shows "(i \<in> pending (step tmo e st)) = (i \<in> pending st) \<and>
         outcomesOf i (step tmo e st) = outcomesOf i st \<and>
         clock (step tmo e st) = clock st \<and>
         i < messageId (step tmo e st) \<and>
         {x \<in> set (timers (step tmo e st)). snd x = i} = {x \<in> set (timers st). snd x = i}"
proof (cases e)
  case (Request m)
  with assms(1) show ?thesis
    by (auto simp: step_def send_def call_def outcomesOf_def Let_def split: option.splits)
next
  case (Message msg)
  show ?thesis
  proof (cases msg)
    case (Response j err res)
    with Message assms(2) have "j \<noteq> i" by (simp add: answers_def)
    with Message Response assms(1) show ?thesis
      by (auto simp: step_def onMessage_def onMessageCtx_def settle_def outcomesOf_def
          split: option.splits)
  next
    case (ContextCreated c)
    with Message assms(1) show ?thesis
      by (auto simp: step_def onMessage_def onMessageCtx_def outcomesOf_def
          split: option.splits)
  next
    case OtherEvent
    with Message assms(1) show ?thesis
      by (auto simp: step_def onMessage_def onMessageCtx_def split: option.splits)
  qed
next
  case (Elapse d)
  with assms(3) show ?thesis by simp
next
  case WsError
  with assms(1) show ?thesis by (simp add: step_def outcomesOf_def)
next
  case Close
  with assms(1) show ?thesis by (simp add: step_def outcomesOf_def)
qed

text \<open>Time passes, and no timeout of the request \<open>i\<close> comes due.\<close>

lemma advance_early:
  assumes "\<forall>x\<in>set (timers st). snd x = i \<longrightarrow> clock st + d < fst x"
  shows "(i \<in> pending (advance d st)) = (i \<in> pending st) \<and>
         outcomesOf i (advance d st) = outcomesOf i st \<and>
         {x \<in> set (timers (advance d st)). snd x = i} = {x \<in> set (timers st). snd x = i}"
proof -
  let ?due = "map snd (filter (\<lambda>x. fst x \<le> clock st + d) (timers st))"
  let ?st1 = "st\<lparr>clock := clock st + d,
                  timers := filter (\<lambda>x. \<not> fst x \<le> clock st + d) (timers st)\<rparr>"
  from assms have "i \<notin> set ?due" by auto
  from fold_onTimeout_absent [OF this, of ?st1]
  have "(i \<in> pending (advance d st)) = (i \<in> pending st)"
    "outcomesOf i (advance d st) = outcomesOf i st"
    by (simp_all add: advance_def Let_def outcomesOf_def)
  moreover from assms
  have "{x \<in> set (timers (advance d st)). snd x = i} = {x \<in> set (timers st). snd x = i}"
    by (auto simp: advance_frame)
  ultimately show ?thesis by simp
qed

text \<open>Time passes, and a timeout of the pending request \<open>i\<close> comes due.\<close>

lemma advance_late:
  assumes "i \<in> pending st" and "(t, i) \<in> set (timers st)" and "t \<le> clock st + d"
  shows "i \<notin> pending (advance d st) \<and>
         outcomesOf i (advance d st) = outcomesOf i st @ [Rejected ''Timeout'']"
proof -
  let ?due = "map snd (filter (\<lambda>x. fst x \<le> clock st + d) (timers st))"
  let ?st1 = "st\<lparr>clock := clock st + d,
                  timers := filter (\<lambda>x. \<not> fst x \<le> clock st + d) (timers st)\<rparr>"
  from assms(2,3) have "(t, i) \<in> set (filter (\<lambda>x. fst x \<le> clock st + d) (timers st))"
    by simp
  then have mem: "i \<in> set ?due" by force
  from assms(1) have pend: "i \<in> pending ?st1" by simp
  from fold_onTimeout_fires [OF mem pend]
  show ?thesis by (simp add: advance_def Let_def outcomesOf_def)
qed

text \<open>A request that is no longer pending is never settled again.\<close>

lemma step_settled:
  assumes "i \<notin> pending st" and "i < messageId st"
  shows "i \<notin> pending (step tmo e st) \<and>
         outcomesOf i (step tmo e st) = outcomesOf i st \<and>
         i < messageId (step tmo e st)"
proof (cases e)
  case (Request m)
  with assms show ?thesis
    by (auto simp: step_def send_def call_def outcomesOf_def Let_def split: option.splits)
next
  case (Message msg)
  show ?thesis
  proof (cases msg)
    case (Response j err res)
    with Message assms show ?thesis
      by (auto simp: step_def onMessage_def onMessageCtx_def settle_def outcomesOf_def
          split: option.splits)
  next
    case (ContextCreated c)
    with Message assms show ?thesis
      by (auto simp: step_def onMessage_def onMessageCtx_def outcomesOf_def
          split: option.splits)
  next
    case OtherEvent
    with Message assms show ?thesis
      by (auto simp: step_def onMessage_def onMessageCtx_def split: option.splits)
  qed
next
  case (Elapse d)
  let ?st1 = "st\<lparr>clock := clock st + d,
                  timers := filter (\<lambda>x. \<not> fst x \<le> clock st + d) (timers st)\<rparr>"
  from assms(1) have "i \<notin> pending ?st1" by simp
  from fold_onTimeout_settled [OF this] Elapse assms(2) show ?thesis
    by (simp add: step_def advance_def Let_def outcomesOf_def fold_onTimeout_frame)
next
  case WsError
  with assms show ?thesis by (simp add: step_def outcomesOf_def)
next
  case Close
  with assms show ?thesis by (simp add: step_def outcomesOf_def)
qed

lemma run_settled:
  "i \<notin> pending st \<Longrightarrow> i < messageId st \<Longrightarrow>
   i \<notin> pending (run tmo evs st) \<and> outcomesOf i (run tmo evs st) = outcomesOf i st"
proof (induction evs arbitrary: st)
  case Nil
  then show ?case by (simp add: run_def)
next
  case (Cons e evs)
  from step_settled [OF Cons.prems, of tmo e]
  have s: "i \<notin> pending (step tmo e st)" "outcomesOf i (step tmo e st) = outcomesOf i st"
    "i < messageId (step tmo e st)" by simp_all
  from Cons.IH [OF s(1) s(3)] s(2) show ?case by (simp add: run_def)
qed

lemma elapsed_Cons:
  "elapsed (e # evs) = (case e of Elapse d \<Rightarrow> d | _ \<Rightarrow> 0) + elapsed evs"
  by (simp add: elapsed_def)

lemma run_Cons: "run tmo (e # evs) st = run tmo evs (step tmo e st)"
  by (simp add: run_def)

lemma run_append: "run tmo (evs0 @ evs) st = run tmo evs (run tmo evs0 st)"
  by (simp add: run_def)

text \<open>Without a timeout and without a response, a pending request stays pending.\<close>

lemma run_unanswered:
  assumes "i \<in> pending st" and "outcomesOf i st = []" and "i < messageId st"
    and "{x \<in> set (timers st). snd x = i} = {}"
    and "\<forall>e\<in>set evs. \<not> answers i e"
  shows "i \<in> pending (run tmo evs st) \<and> outcomesOf i (run tmo evs st) = []"
  using assms
proof (induction evs arbitrary: st)
  case Nil
  then show ?case by (simp add: run_def)
next
  case (Cons e evs)
  from Cons.prems(5) have na: "\<not> answers i e" and rest: "\<forall>e\<in>set evs. \<not> answers i e"
    by simp_all
  have keep: "i \<in> pending (step tmo e st) \<and> outcomesOf i (step tmo e st) = [] \<and>
      i < messageId (step tmo e st) \<and> {x \<in> set (timers (step tmo e st)). snd x = i} = {}"
  proof (cases "\<exists>d. e = Elapse d")
    case True
    then obtain d where e: "e = Elapse d" by blast
    from Cons.prems(4) have "\<forall>x\<in>set (timers st). snd x = i \<longrightarrow> clock st + d < fst x" by blast
    from advance_early [OF this] Cons.prems(1-4) e show ?thesis
      by (simp add: step_def advance_frame)
  next
    case False
    then have "\<forall>d. e \<noteq> Elapse d" by blast
    from step_other [OF Cons.prems(3) na this, of tmo] Cons.prems(1,2,4) show ?thesis by simp
  qed
  then show ?case using Cons.IH [of "step tmo e st"] rest by (simp add: run_Cons)
qed

text \<open>
  With exactly one timeout, due at \<open>t\<close>, and without a response, a pending request stays
  pending as long as the clock is before \<open>t\<close> and is rejected with "Timeout", once, from
  then on.
\<close>

lemma run_timeout:
  assumes "i \<in> pending st" and "outcomesOf i st = []" and "i < messageId st"
    and "{x \<in> set (timers st). snd x = i} = {(t, i)}" and "clock st < t"
    and "\<forall>e\<in>set evs. \<not> answers i e"
  shows "if clock st + elapsed evs < t
         then i \<in> pending (run tmo evs st) \<and> outcomesOf i (run tmo evs st) = []
         else i \<notin> pending (run tmo evs st) \<and>
              outcomesOf i (run tmo evs st) = [Rejected ''Timeout'']"
  using assms
proof (induction evs arbitrary: st)
  case Nil
  then show ?case by (simp add: run_def elapsed_def)
next
  case (Cons e evs)
  from Cons.prems(6) have na: "\<not> answers i e" and rest: "\<forall>e\<in>set evs. \<not> answers i e"
    by simp_all
  show ?case
  proof (cases "\<exists>d. e = Elapse d")
    case False
    then have ne: "\<forall>d. e \<noteq> Elapse d" by blast
    then have el: "elapsed (e # evs) = elapsed evs"
      by (cases e) (simp_all add: elapsed_Cons)
    from step_other [OF Cons.prems(3) na ne, of tmo] Cons.prems(1,2,4,5)
    have "i \<in> pending (step tmo e st)" "outcomesOf i (step tmo e st) = []"
      "i < messageId (step tmo e st)"
      "{x \<in> set (timers (step tmo e st)). snd x = i} = {(t, i)}"
      "clock (step tmo e st) < t"
      by simp_all
    from Cons.IH [OF this rest] step_other [OF Cons.prems(3) na ne, of tmo] el
    show ?thesis by (simp add: run_Cons)
  next
    case True
    then obtain d where e: "e = Elapse d" by blast
    then have el: "elapsed (e # evs) = d + elapsed evs" by (simp add: elapsed_Cons)
    show ?thesis
    proof (cases "clock st + d < t")
      case True
      with Cons.prems(4) have "\<forall>x\<in>set (timers st). snd x = i \<longrightarrow> clock st + d < fst x"
        by auto
      from advance_early [OF this] Cons.prems(1-4) True e
      have "i \<in> pending (step tmo e st)" "outcomesOf i (step tmo e st) = []"
        "i < messageId (step tmo e st)"
        "{x \<in> set (timers (step tmo e st)). snd x = i} = {(t, i)}"
        "clock (step tmo e st) < t"
        by (simp_all add: step_def advance_frame)
      from Cons.IH [OF this rest]
      have "if clock (step tmo e st) + elapsed evs < t
         then i \<in> pending (run tmo (e # evs) st) \<and> outcomesOf i (run tmo (e # evs) st) = []
         else i \<notin> pending (run tmo (e # evs) st) \<and>
              outcomesOf i (run tmo (e # evs) st) = [Rejected ''Timeout'']"
        by (simp add: run_Cons)
      moreover have "clock (step tmo e st) + elapsed evs = clock st + elapsed (e # evs)"
        using e el by (simp add: step_def advance_frame)
      ultimately show ?thesis by simp
    next
      case False
      then have late: "t \<le> clock st + d" by simp
      from Cons.prems(4) have mem: "(t, i) \<in> set (timers st)" by blast
      from advance_late [OF Cons.prems(1) mem late] Cons.prems(2,3) e
      have s: "i \<notin> pending (step tmo e st)"
        "outcomesOf i (step tmo e st) = [Rejected ''Timeout'']"
        "i < messageId (step tmo e st)"
        by (simp_all add: step_def advance_frame)
      from run_settled [OF s(1) s(3), of tmo evs] s(2) late el show ?thesis
        by (simp add: run_Cons)
    qed
  qed
qed

text \<open>The ids of a connection are 1, 2, 3, ... in the order of the requests.\<close>

lemma step_frames:
  "messageId (step tmo e st) = (case e of Request m \<Rightarrow> messageId st + 1 | _ \<Rightarrow> messageId st) \<and>
   frames (step tmo e st) =
     (case e of Request m \<Rightarrow> frames st @ [(messageId st, m)] | _ \<Rightarrow> frames st)"
proof (cases e)
  case (Message msg)
  then show ?thesis
    by (cases msg)
       (simp_all add: step_def onMessage_def onMessageCtx_def settle_def split: option.splits)
qed (simp_all add: step_def send_def call_def advance_frame Let_def split: option.splits)

lemma request_ids:
  "map fst (frames (run tmo evs openConnection)) = [1..<messageId (run tmo evs openConnection)] \<and>
   1 \<le> messageId (run tmo evs openConnection)"
proof (induction evs rule: rev_induct)
  case Nil
  then show ?case by (simp add: run_def openConnection_def)
next
  case (snoc e evs)
  let ?st = "run tmo evs openConnection"
  have r: "run tmo (evs @ [e]) openConnection = step tmo e ?st"
    by (simp add: run_def)
  show ?case
  proof (cases "\<exists>m. e = Request m")
    case True
    then obtain m where e: "e = Request m" by blast
    from step_frames [of tmo e ?st] e
    have "messageId (step tmo e ?st) = Suc (messageId ?st)"
      "frames (step tmo e ?st) = frames ?st @ [(messageId ?st, m)]"
      by simp_all
    with snoc show ?thesis unfolding r by simp
  next
    case False
    then have "messageId (step tmo e ?st) = messageId ?st" "frames (step tmo e ?st) = frames ?st"
      using step_frames [of tmo e ?st] by (cases e; simp)+
    with snoc show ?thesis unfolding r by simp
  qed
qed

text \<open>A response whose id is not pending changes nothing.\<close>

lemma unmatched_response_ignored:
  "rid \<notin> pending st \<Longrightarrow> step tmo (Message (Response rid err res)) st = st"
  by (simp add: step_def onMessage_def onMessageCtx_def split: option.splits)

text \<open>No request is settled twice.\<close>

lemma onTimeout_settledOnce: "settledOnce st \<Longrightarrow> settledOnce (onTimeout j st)"
  by (auto simp: settledOnce_def onTimeout_def)

lemma fold_onTimeout_settledOnce: "settledOnce st \<Longrightarrow> settledOnce (fold onTimeout ids st)"
  by (induction ids arbitrary: st) (simp_all add: onTimeout_settledOnce)

lemma step_settledOnce:
  assumes "wellFormed st" and "settledOnce st"
  shows "settledOnce (step tmo e st)"
proof (cases e)
  case (Request m)
  from assms have "\<forall>x\<in>set (outcomes st). fst x \<noteq> messageId st"
    by (auto simp: wellFormed_def)
  with Request assms(2) show ?thesis
    by (auto simp: step_def send_def call_def settledOnce_def Let_def split: option.splits)
next
  case (Message msg)
  show ?thesis
  proof (cases msg)
    case (Response j err res)
    with Message assms(2) show ?thesis
      by (auto simp: step_def onMessage_def onMessageCtx_def settle_def settledOnce_def
          split: option.splits)
  next
    case (ContextCreated c)
    with Message assms(2) show ?thesis
      by (auto simp: step_def onMessage_def onMessageCtx_def settledOnce_def
          split: option.splits)
  next
    case OtherEvent
    with Message assms(2) show ?thesis
      by (auto simp: step_def onMessage_def onMessageCtx_def split: option.splits)
  qed
next
  case (Elapse d)
  let ?st1 = "st\<lparr>clock := clock st + d,
                  timers := filter (\<lambda>x. \<not> fst x \<le> clock st + d) (timers st)\<rparr>"
  from assms(2) have "settledOnce ?st1" by (simp add: settledOnce_def)
  with Elapse show ?thesis
    by (simp add: step_def advance_def Let_def fold_onTimeout_settledOnce)
next
  case WsError
  with assms(2) show ?thesis by (simp add: step_def settledOnce_def)
next
  case Close
  with assms(2) show ?thesis by (simp add: step_def settledOnce_def)
qed

lemma run_settledOnce:
  "wellFormed st \<Longrightarrow> settledOnce st \<Longrightarrow> settledOnce (run tmo evs st)"
proof (induction evs arbitrary: st)
  case Nil
  then show ?case by (simp add: run_def)
next
  case (Cons e evs)
  from Cons.IH [OF step_wellFormed [OF Cons.prems(1)] step_settledOnce [OF Cons.prems]]
  show ?case by (simp add: run_Cons)
qed

lemma distinct_filter_fst:
  "distinct (map fst xs) \<Longrightarrow> length (filter (\<lambda>x. fst x = i) xs) \<le> 1"
proof (induction xs)
  case Nil
  then show ?case by simp
next
  case (Cons x xs)
  show ?case
  proof (cases "fst x = i")
    case True
    with Cons.prems have "i \<notin> fst ` set xs" by simp
    then have "\<forall>y\<in>set xs. fst y \<noteq> i" by auto
    then have "filter (\<lambda>x. fst x = i) xs = []" by (simp add: filter_empty_conv)
    with True show ?thesis by simp
  next
    case False
    with Cons show ?thesis by simp
  qed
qed

lemma at_most_one_outcome:
  "length (outcomesOf rid (run tmo evs openConnection)) \<le> 1"
proof -
  have "settledOnce (openConnection :: 'a connection)"
    by (simp add: settledOnce_def openConnection_def)
  from run_settledOnce [OF wellFormed_open this, of tmo evs]
  have "distinct (map fst (outcomes (run tmo evs (openConnection :: 'a connection))))"
    by (simp add: settledOnce_def)
  from distinct_filter_fst [OF this, of rid] show ?thesis
    by (simp add: outcomesOf_def)
qed

text \<open>The socket is open after a run exactly when it was open and no error or close occurred.\<close>

lemma run_wsOpen:
  "wsOpen (run tmo evs st) = (wsOpen st \<and> WsError \<notin> set evs \<and> Close \<notin> set evs)"
proof (induction evs arbitrary: st)
  case Nil
  then show ?case by (simp add: run_def)
next
  case (Cons e evs)
  have "wsOpen (step tmo e st) = (wsOpen st \<and> e \<noteq> WsError \<and> e \<noteq> Close)"
  proof (cases e)
    case (Message msg)
    then show ?thesis
      by (cases msg)
         (simp_all add: step_def onMessage_def onMessageCtx_def settle_def split: option.splits)
  qed (simp_all add: step_def send_def call_def advance_frame Let_def split: option.splits)
  with Cons.IH [of "step tmo e st"] show ?case by (auto simp: run_Cons)
qed

text \<open>
  Claim C2 on the client of \<open>connectToTarget\<close>. Its \<open>send\<close> sets no timeout and no
  listener rejects the pending requests, so a request that gets no response frame is
  never settled: whatever else happens on the connection (other requests and their
  responses, socket errors, the close, any amount of time), it stays in the pending map
  with no outcome.
\<close>

theorem send_unanswered_never_settled:
  assumes "\<forall>e\<in>set evs. \<not> answers (messageId (run None evs0 openConnection)) e"
  shows "(let rid = messageId (run None evs0 openConnection);
              st' = run None (evs0 @ Request m # evs) openConnection
          in rid \<in> pending st' \<and> outcomesOf rid st' = [])"
proof -
  let ?st = "run None evs0 openConnection"
  let ?st1 = "step None (Request m) ?st"
  have wf: "wellFormed ?st" by (rule run_wellFormed [OF wellFormed_open])
  have st1: "?st1 = send m ?st" by (simp add: step_def)
  have a: "messageId ?st \<in> pending ?st1" by (simp add: st1 send_def Let_def)
  have b: "outcomesOf (messageId ?st) ?st1 = []"
    using wf by (auto simp: st1 send_def Let_def outcomesOf_def wellFormed_def filter_empty_conv)
  have c: "messageId ?st < messageId ?st1" by (simp add: st1 send_def Let_def)
  have d: "{x \<in> set (timers ?st1). snd x = messageId ?st} = {}"
    using wf by (auto simp: st1 send_def Let_def wellFormed_def)
  have "run None (evs0 @ Request m # evs) openConnection = run None evs ?st1"
    by (simp add: run_def)
  with run_unanswered [OF a b c d assms] show ?thesis by (simp add: Let_def)
qed

text \<open>
  A screenshot request that the page never answers: the socket fails, a minute passes,
  the socket is closed, and the request is still pending and unsettled.
\<close>

theorem send_unanswered_never_settled_witness:
  "1 \<in> pending (run None [Request ''Page.captureScreenshot'', WsError, Elapse 60000, Close]
         (openConnection :: string connection))
   \<and> outcomes (run None [Request ''Page.captureScreenshot'', WsError, Elapse 60000, Close]
         (openConnection :: string connection)) = []"
proof -
  have m: "messageId (run None [] (openConnection :: string connection)) = 1"
    by (simp add: run_def openConnection_def)
  have na: "\<forall>e\<in>set [WsError, Elapse 60000, Close :: string event].
      \<not> answers (messageId (run None [] (openConnection :: string connection))) e"
    by (simp add: answers_def)
  from send_unanswered_never_settled [OF na, of "''Page.captureScreenshot''"]
  have "1 \<in> pending (run None [Request ''Page.captureScreenshot'', WsError, Elapse 60000, Close]
         (openConnection :: string connection))"
    by (simp add: Let_def m)
  moreover have "outcomes (run None [Request ''Page.captureScreenshot'', WsError, Elapse 60000, Close]
         (openConnection :: string connection)) = []"
    by (simp add: run_def step_def send_def advance_def openConnection_def Let_def)
  ultimately show ?thesis by simp
qed

subsection \<open>The open handler of a helper operation\<close>

lemma fold_onTimeout_contexts: "contexts (fold onTimeout ids st) = contexts st"
  by (induction ids arbitrary: st) (simp_all add: onTimeout_def)

lemma advance_contexts: "contexts (advance d c) = contexts c"
  by (simp add: advance_def Let_def fold_onTimeout_contexts)

lemma awaiting_timers:
  assumes "awaiting c rid t"
  shows "{x \<in> set (timers c). snd x = rid} = {(t, rid)}"
proof (intro equalityI subsetI)
  from assms have b: "\<forall>x\<in>set (timers c). snd x = rid \<longrightarrow> fst x = t"
    by (simp add: awaiting_def)
  fix x assume "x \<in> {x \<in> set (timers c). snd x = rid}"
  then have x: "x \<in> set (timers c)" "snd x = rid" by simp_all
  with b have "fst x = t" by blast
  with x(2) have "x = (t, rid)" by (cases x) simp
  then show "x \<in> {(t, rid)}" by simp
next
  from assms have a: "(t, rid) \<in> set (timers c)" by (simp add: awaiting_def)
  fix x assume "x \<in> {(t, rid)}"
  with a show "x \<in> {x \<in> set (timers c). snd x = rid}" by simp
qed

text \<open>A call that has just been made is awaited, with its timeout due \<open>ms\<close> later.\<close>

lemma call_awaiting:
  assumes "wellFormed c" and "0 < ms"
  shows "awaiting (step (Some ms) (Request m) c) (messageId c) (clock c + ms)"
    and "wellFormed (step (Some ms) (Request m) c)"
    and "wsOpen (step (Some ms) (Request m) c) = wsOpen c"
    and "contexts (step (Some ms) (Request m) c) = contexts c"
    and "clock (step (Some ms) (Request m) c) = clock c"
    and "messageId c < messageId (step (Some ms) (Request m) c)"
proof -
  have st: "step (Some ms) (Request m) c = call ms m c" by (simp add: step_def)
  from assms(1) have out: "\<forall>x\<in>set (outcomes c). fst x \<noteq> messageId c"
    and tim: "\<forall>x\<in>set (timers c). snd x \<noteq> messageId c"
    by (auto simp: wellFormed_def)
  from out have "outcomesOf (messageId c) (call ms m c) = []"
    by (simp add: call_def send_def Let_def outcomesOf_def filter_empty_conv)
  with tim assms(2) show "awaiting (step (Some ms) (Request m) c) (messageId c) (clock c + ms)"
    by (auto simp: st awaiting_def call_def send_def Let_def)
  show "wellFormed (step (Some ms) (Request m) c)"
    by (rule step_wellFormed [OF assms(1)])
  show "wsOpen (step (Some ms) (Request m) c) = wsOpen c"
    "contexts (step (Some ms) (Request m) c) = contexts c"
    "clock (step (Some ms) (Request m) c) = clock c"
    "messageId c < messageId (step (Some ms) (Request m) c)"
    by (simp_all add: st call_def send_def Let_def)
qed

text \<open>
  While the handler waits for the request \<open>rid\<close>: a signal that is no response to it,
  and no tick that reaches its timeout, leaves the request awaited.
\<close>

lemma timers_awaiting:
  assumes "{x \<in> set ts. snd x = rid} = {(t, rid)}"
  shows "(t, rid) \<in> set ts" and "\<forall>x\<in>set ts. snd x = rid \<longrightarrow> fst x = t"
proof -
  from assms have "(t, rid) \<in> {x \<in> set ts. snd x = rid}" by blast
  then show "(t, rid) \<in> set ts" by blast
  show "\<forall>x\<in>set ts. snd x = rid \<longrightarrow> fst x = t"
  proof (intro ballI impI)
    fix x assume "x \<in> set ts" "snd x = rid"
    then have "x \<in> {x \<in> set ts. snd x = rid}" by blast
    with assms have "x = (t, rid)" by blast
    then show "fst x = t" by simp
  qed
qed

lemma step_awaiting:
  assumes "awaiting c rid t" and "\<not> answers rid e" and "\<forall>d. e \<noteq> Elapse d"
  shows "awaiting (step tmo e c) rid t"
    and "clock (step tmo e c) = clock c"
proof -
  from assms(1) have lt: "rid < messageId c" and p: "rid \<in> pending c"
    and o: "outcomesOf rid c = []" and ck: "clock c < t"
    by (simp_all add: awaiting_def)
  from step_other [OF lt assms(2,3), of tmo]
  have p': "(rid \<in> pending (step tmo e c)) = (rid \<in> pending c)"
    and o': "outcomesOf rid (step tmo e c) = outcomesOf rid c"
    and c': "clock (step tmo e c) = clock c"
    and m': "rid < messageId (step tmo e c)"
    and t': "{x \<in> set (timers (step tmo e c)). snd x = rid} = {x \<in> set (timers c). snd x = rid}"
    by blast+
  from t' awaiting_timers [OF assms(1)]
  have "{x \<in> set (timers (step tmo e c)). snd x = rid} = {(t, rid)}" by (rule trans)
  note tm = timers_awaiting [OF this]
  show "awaiting (step tmo e c) rid t"
    unfolding awaiting_def
  proof (intro conjI)
    show "rid \<in> pending (step tmo e c)" using p p' by blast
    show "outcomesOf rid (step tmo e c) = []" using o o' by simp
    show "rid < messageId (step tmo e c)" by (rule m')
    show "(t, rid) \<in> set (timers (step tmo e c))" by (rule tm(1))
    show "\<forall>x\<in>set (timers (step tmo e c)). snd x = rid \<longrightarrow> fst x = t" by (rule tm(2))
    show "clock (step tmo e c) < t" using ck c' by simp
  qed
  from c' show "clock (step tmo e c) = clock c" .
qed

lemma tick_awaiting:
  assumes "awaiting c rid t" and "clock c + 1 < t"
  shows "awaiting (step tmo (Elapse 1) c) rid t"
proof -
  from assms(1) have lt: "rid < messageId c" and p: "rid \<in> pending c"
    and o: "outcomesOf rid c = []"
    and b: "\<forall>x\<in>set (timers c). snd x = rid \<longrightarrow> fst x = t"
    by (simp_all add: awaiting_def)
  from b assms(2) have early: "\<forall>x\<in>set (timers c). snd x = rid \<longrightarrow> clock c + 1 < fst x"
    by blast
  from advance_early [OF early]
  have p': "(rid \<in> pending (advance 1 c)) = (rid \<in> pending c)"
    and o': "outcomesOf rid (advance 1 c) = outcomesOf rid c"
    and t': "{x \<in> set (timers (advance 1 c)). snd x = rid} = {x \<in> set (timers c). snd x = rid}"
    by blast+
  from t' awaiting_timers [OF assms(1)]
  have "{x \<in> set (timers (advance 1 c)). snd x = rid} = {(t, rid)}" by (rule trans)
  note tm = timers_awaiting [OF this]
  from advance_frame [of 1 c]
  have m: "messageId (advance 1 c) = messageId c" and ck: "clock (advance 1 c) = clock c + 1"
    by blast+
  have "awaiting (advance 1 c) rid t"
    unfolding awaiting_def
  proof (intro conjI)
    show "rid \<in> pending (advance 1 c)" using p p' by blast
    show "outcomesOf rid (advance 1 c) = []" using o o' by simp
    show "rid < messageId (advance 1 c)" using lt m by simp
    show "(t, rid) \<in> set (timers (advance 1 c))" by (rule tm(1))
    show "\<forall>x\<in>set (timers (advance 1 c)). snd x = rid \<longrightarrow> fst x = t" by (rule tm(2))
    show "clock (advance 1 c) < t" using assms(2) ck by simp
  qed
  moreover have "step tmo (Elapse 1) c = advance 1 c" by (simp add: step_def)
  ultimately show ?thesis by simp
qed

lemma tick_timeout:
  assumes "awaiting c rid t" and "t \<le> clock c + 1"
  shows "rid \<notin> pending (step tmo (Elapse 1) c)"
    and "outcomesOf rid (step tmo (Elapse 1) c) = [Rejected ''Timeout'']"
proof -
  from assms(1) have p: "rid \<in> pending c" and m: "(t, rid) \<in> set (timers c)"
    and o: "outcomesOf rid c = []"
    by (simp_all add: awaiting_def)
  from advance_late [OF p m assms(2)] o
  show "rid \<notin> pending (step tmo (Elapse 1) c)"
    "outcomesOf rid (step tmo (Elapse 1) c) = [Rejected ''Timeout'']"
    by (simp_all add: step_def)
qed

lemma resume_waiting:
  "awaited h = Some rid \<Longrightarrow> outcomesOf rid (conn h) = [] \<Longrightarrow> resume ms accept h = h"
  by (cases "stage h") (simp_all add: awaited_def resume_def)

lemma responds_answers: "responds rid (Frame msg) = answers rid (Message msg)"
  by (cases msg) (simp_all add: responds_def answers_def)

lemma step_message_frame:
  "wsOpen (step tmo (Message msg) c) = wsOpen c \<and>
   clock (step tmo (Message msg) c) = clock c \<and>
   messageId (step tmo (Message msg) c) = messageId c"
  by (cases msg)
     (simp_all add: step_def onMessage_def onMessageCtx_def settle_def split: option.splits)

lemma onSignal_waiting:
  assumes "awaited h = Some rid" and "awaiting (conn h) rid t" and "\<not> responds rid s"
    and "s = Tick \<longrightarrow> clock (conn h) + 1 < t"
  shows "stage (onSignal ms accept s h) = stage h"
    and "awaiting (conn (onSignal ms accept s h)) rid t"
    and "clock (conn (onSignal ms accept s h)) = clock (conn h) + (case s of Tick \<Rightarrow> 1 | _ \<Rightarrow> 0)"
    and "wsOpen (conn (onSignal ms accept s h)) = (wsOpen (conn h) \<and> s \<noteq> SocketError)"
    and "resolved (onSignal ms accept s h) =
           (if s = SocketError
            then (case resolved h of None \<Rightarrow> Some (Failed ''WebSocket error'') | Some w \<Rightarrow> Some w)
            else resolved h)"
    and "messageId (conn (onSignal ms accept s h)) = messageId (conn h)"
proof -
  define h1 where "h1 = deliver ms s h"
  have r: "onSignal ms accept s h = resume ms accept h1"
    unfolding h1_def by (simp add: onSignal_def)
  have facts: "stage h1 = stage h \<and> awaiting (conn h1) rid t \<and>
      clock (conn h1) = clock (conn h) + (case s of Tick \<Rightarrow> 1 | _ \<Rightarrow> 0) \<and>
      wsOpen (conn h1) = (wsOpen (conn h) \<and> s \<noteq> SocketError) \<and>
      resolved h1 =
           (if s = SocketError
            then (case resolved h of None \<Rightarrow> Some (Failed ''WebSocket error'') | Some w \<Rightarrow> Some w)
            else resolved h) \<and>
      messageId (conn h1) = messageId (conn h)"
  proof (cases s)
    case (Frame msg)
    with assms(3) have na: "\<not> answers rid (Message msg)" by (simp add: responds_answers)
    have ne: "\<forall>d. Message msg \<noteq> Elapse d" by simp
    from step_awaiting [OF assms(2) na ne, of "Some ms"] step_message_frame [of "Some ms" msg "conn h"]
      assms(2) Frame
    show ?thesis by (simp add: h1_def deliver_def)
  next
    case Tick
    with assms(4) have "clock (conn h) + 1 < t" by simp
    from tick_awaiting [OF assms(2) this, of "Some ms"] Tick
    show ?thesis by (simp add: h1_def deliver_def step_def advance_frame)
  next
    case SocketError
    have na: "\<not> answers rid WsError" by (simp add: answers_def)
    have ne: "\<forall>d. (WsError :: 'a event) \<noteq> Elapse d" by simp
    from step_awaiting [OF assms(2) na ne, of "Some ms"] SocketError
    show ?thesis by (simp add: h1_def deliver_def resolve_def step_def)
  qed
  then have aw1: "awaited h1 = Some rid" using assms(1) by (simp add: awaited_def)
  from facts have "outcomesOf rid (conn h1) = []" by (simp add: awaiting_def)
  from resume_waiting [OF aw1 this] have "resume ms accept h1 = h1" .
  with r have eq: "onSignal ms accept s h = h1" by simp
  from facts show "stage (onSignal ms accept s h) = stage h"
    "awaiting (conn (onSignal ms accept s h)) rid t"
    "clock (conn (onSignal ms accept s h)) = clock (conn h) + (case s of Tick \<Rightarrow> 1 | _ \<Rightarrow> 0)"
    "wsOpen (conn (onSignal ms accept s h)) = (wsOpen (conn h) \<and> s \<noteq> SocketError)"
    "resolved (onSignal ms accept s h) =
           (if s = SocketError
            then (case resolved h of None \<Rightarrow> Some (Failed ''WebSocket error'') | Some w \<Rightarrow> Some w)
            else resolved h)"
    "messageId (conn (onSignal ms accept s h)) = messageId (conn h)"
    unfolding eq by blast+
qed

lemma ticks_Cons: "ticks (s # sigs) = (case s of Tick \<Rightarrow> 1 | _ \<Rightarrow> 0) + ticks sigs"
  by (simp add: ticks_def)

text \<open>
  While the timeout of the awaited request is not reached and no response to it arrives,
  the handler stays where it is and the request stays pending and unsettled; the socket
  is open unless it reported an error.
\<close>

lemma waiting:
  assumes "awaited h = Some rid" and "awaiting (conn h) rid t"
    and "\<forall>s\<in>set sigs. \<not> responds rid s" and "clock (conn h) + ticks sigs < t"
  shows "stage (fold (onSignal ms accept) sigs h) = stage h \<and>
         awaiting (conn (fold (onSignal ms accept) sigs h)) rid t \<and>
         clock (conn (fold (onSignal ms accept) sigs h)) = clock (conn h) + ticks sigs \<and>
         wsOpen (conn (fold (onSignal ms accept) sigs h)) =
           (wsOpen (conn h) \<and> SocketError \<notin> set sigs) \<and>
         resolved (fold (onSignal ms accept) sigs h) =
           (if SocketError \<in> set sigs
            then (case resolved h of None \<Rightarrow> Some (Failed ''WebSocket error'') | Some w \<Rightarrow> Some w)
            else resolved h) \<and>
         messageId (conn (fold (onSignal ms accept) sigs h)) = messageId (conn h)"
  using assms
proof (induction sigs arbitrary: h)
  case Nil
  then show ?case by (simp add: ticks_def)
next
  case (Cons s sigs)
  let ?h1 = "onSignal ms accept s h"
  from Cons.prems(3) have nr: "\<not> responds rid s" and rest: "\<forall>s\<in>set sigs. \<not> responds rid s"
    by simp_all
  from Cons.prems(4) have tk: "s = Tick \<longrightarrow> clock (conn h) + 1 < t"
    by (auto simp: ticks_Cons)
  note one = onSignal_waiting [OF Cons.prems(1,2) nr tk, of ms accept]
  from one(1) Cons.prems(1) have aw: "awaited ?h1 = Some rid" by (simp add: awaited_def)
  from one(3) Cons.prems(4) have lt: "clock (conn ?h1) + ticks sigs < t"
    by (simp add: ticks_Cons add.assoc)
  note ih = Cons.IH [OF aw one(2) rest lt]
  have f: "fold (onSignal ms accept) (s # sigs) h = fold (onSignal ms accept) sigs ?h1" by simp
  have res: "(if SocketError \<in> set sigs
        then (case resolved ?h1 of None \<Rightarrow> Some (Failed ''WebSocket error'') | Some w \<Rightarrow> Some w)
        else resolved ?h1) =
      (if SocketError \<in> set (s # sigs)
        then (case resolved h of None \<Rightarrow> Some (Failed ''WebSocket error'') | Some w \<Rightarrow> Some w)
        else resolved h)"
    using one(5) by (cases "resolved h") auto
  from ih one res show ?case
    unfolding f by (auto simp: ticks_Cons add.assoc)
qed

lemma step_close_frame:
  "pending (step tmo Close c) = pending c \<and> outcomes (step tmo Close c) = outcomes c \<and>
   \<not> wsOpen (step tmo Close c) \<and> messageId (step tmo Close c) = messageId c \<and>
   timers (step tmo Close c) = timers c"
  by (simp add: step_def)

lemma closeAndResolve_frame:
  "stage (closeAndResolve ms v h) = Finished \<and>
   \<not> wsOpen (conn (closeAndResolve ms v h)) \<and>
   pending (conn (closeAndResolve ms v h)) = pending (conn h) \<and>
   outcomesOf rid (conn (closeAndResolve ms v h)) = outcomesOf rid (conn h) \<and>
   resolved (closeAndResolve ms v h) =
     (case resolved h of None \<Rightarrow> Some v | Some w \<Rightarrow> Some w)"
  by (simp add: closeAndResolve_def resolve_def step_def outcomesOf_def)

text \<open>
  The tick on which the timeout of the awaited request comes due: the request leaves the
  pending map and is rejected with "Timeout". If it was \<open>Runtime.enable\<close>, the handler
  closes the socket and resolves to the failure. If it was an evaluation, the handler
  calls the evaluation of the next context on the open socket, or, after the last
  context, closes the socket and resolves to the default.
\<close>

lemma timeout_tick:
  assumes "awaited h = Some rid" and "awaiting (conn h) rid t" and "clock (conn h) + 1 = t"
  shows "rid \<notin> pending (conn (onSignal ms accept Tick h)) \<and>
         outcomesOf rid (conn (onSignal ms accept Tick h)) = [Rejected ''Timeout''] \<and>
         (case stage h of
            Enabling r \<Rightarrow>
              stage (onSignal ms accept Tick h) = Finished \<and>
              \<not> wsOpen (conn (onSignal ms accept Tick h)) \<and>
              resolved (onSignal ms accept Tick h) =
                (case resolved h of None \<Rightarrow> Some (Failed ''Timeout'') | Some w \<Rightarrow> Some w)
          | Evaluating r i \<Rightarrow>
              if i + 1 < length (contexts (conn h))
              then stage (onSignal ms accept Tick h) = Evaluating (messageId (conn h)) (i + 1) \<and>
                   wsOpen (conn (onSignal ms accept Tick h)) = wsOpen (conn h) \<and>
                   messageId (conn h) \<in> pending (conn (onSignal ms accept Tick h)) \<and>
                   resolved (onSignal ms accept Tick h) = resolved h
              else stage (onSignal ms accept Tick h) = Finished \<and>
                   \<not> wsOpen (conn (onSignal ms accept Tick h)) \<and>
                   resolved (onSignal ms accept Tick h) =
                     (case resolved h of None \<Rightarrow> Some NoMatch | Some w \<Rightarrow> Some w)
          | Settling u \<Rightarrow> True
          | Finished \<Rightarrow> True)"
proof -
  let ?c1 = "step (Some ms) (Elapse 1) (conn h)"
  let ?h1 = "h\<lparr>conn := ?c1\<rparr>"
  have r: "onSignal ms accept Tick h = resume ms accept ?h1"
    by (simp add: onSignal_def deliver_def)
  from assms(3) have late: "t \<le> clock (conn h) + 1" by simp
  note to = tick_timeout [OF assms(2) late, of "Some ms"]
  from assms(2) have lt: "rid < messageId (conn h)" by (simp add: awaiting_def)
  have c1: "messageId ?c1 = messageId (conn h)" "wsOpen ?c1 = wsOpen (conn h)"
    "contexts ?c1 = contexts (conn h)"
    by (simp_all add: step_def advance_frame advance_contexts)
  show ?thesis
  proof (cases "stage h")
    case (Enabling r)
    with assms(1) have rr: "r = rid" by (simp add: awaited_def)
    have "resume ms accept ?h1 = closeAndResolve ms (Failed ''Timeout'') ?h1"
      using Enabling rr to(2) by (simp add: resume_def)
    with r have eq: "onSignal ms accept Tick h = closeAndResolve ms (Failed ''Timeout'') ?h1"
      by simp
    from closeAndResolve_frame [of ms "Failed ''Timeout''" ?h1 rid] to Enabling
    show ?thesis unfolding eq by simp
  next
    case (Evaluating r i)
    with assms(1) have rr: "r = rid" by (simp add: awaited_def)
    have eq: "onSignal ms accept Tick h = nextContext ms (i + 1) ?h1"
      using Evaluating rr to(2) r by (simp add: resume_def)
    show ?thesis
    proof (cases "i + 1 < length (contexts (conn h))")
      case True
      then have nc: "nextContext ms (i + 1) ?h1 =
          ?h1\<lparr>conn := step (Some ms) (Request ''Runtime.evaluate'') ?c1,
               stage := Evaluating (messageId ?c1) (i + 1)\<rparr>"
        using c1(3) by (simp add: nextContext_def)
      have rq: "step (Some ms) (Request ''Runtime.evaluate'') ?c1 = call ms ''Runtime.evaluate'' ?c1"
        by (simp add: step_def)
      from lt c1(1) have ne: "rid \<noteq> messageId ?c1" by simp
      have p: "rid \<notin> pending (call ms ''Runtime.evaluate'' ?c1)"
        using to(1) ne by (simp add: call_def send_def Let_def)
      have o: "outcomesOf rid (call ms ''Runtime.evaluate'' ?c1) = [Rejected ''Timeout'']"
        using to(2) by (simp add: call_def send_def Let_def outcomesOf_def)
      have w: "wsOpen (call ms ''Runtime.evaluate'' ?c1) = wsOpen (conn h)"
        using c1(2) by (simp add: call_def send_def Let_def)
      have n: "messageId (conn h) \<in> pending (call ms ''Runtime.evaluate'' ?c1)"
        using c1(1) by (simp add: call_def send_def Let_def)
      from True Evaluating p o w n c1(1) show ?thesis
        unfolding eq nc rq by simp
    next
      case False
      then have nc: "nextContext ms (i + 1) ?h1 = closeAndResolve ms NoMatch ?h1"
        using c1(3) by (simp add: nextContext_def)
      from closeAndResolve_frame [of ms NoMatch ?h1 rid] to Evaluating False
      show ?thesis unfolding eq nc by simp
    qed
  next
    case (Settling u)
    with assms(1) show ?thesis by (simp add: awaited_def)
  next
    case Finished
    with assms(1) show ?thesis by (simp add: awaited_def)
  qed
qed

text \<open>Every state of a run of the handler is in order.\<close>

lemma handlerOk_awaiting:
  "handlerOk h \<Longrightarrow> awaited h = Some rid \<Longrightarrow> \<exists>t. awaiting (conn h) rid t"
  by (auto simp: handlerOk_def list_ex_iff)

lemma handlerOk_intro:
  assumes "wellFormed (conn h)" and "\<And>rid. awaited h = Some rid \<Longrightarrow> \<exists>t. awaiting (conn h) rid t"
  shows "handlerOk h"
proof (cases "awaited h")
  case None
  with assms(1) show ?thesis by (simp add: handlerOk_def)
next
  case (Some rid)
  from assms(2) [OF Some] obtain t where t: "awaiting (conn h) rid t" by blast
  then have "(t, rid) \<in> set (timers (conn h))" by (simp add: awaiting_def)
  with t have "\<exists>x\<in>set (timers (conn h)). awaiting (conn h) rid (fst x)" by force
  with assms(1) Some show ?thesis by (simp add: handlerOk_def list_ex_iff)
qed

lemma closeAndResolve_ok: "wellFormed (conn h) \<Longrightarrow> handlerOk (closeAndResolve ms v h)"
proof (rule handlerOk_intro)
  assume "wellFormed (conn h)"
  then show "wellFormed (conn (closeAndResolve ms v h))"
    by (simp add: closeAndResolve_def resolve_def step_wellFormed)
next
  fix rid assume "awaited (closeAndResolve ms v h) = Some rid"
  then show "\<exists>t. awaiting (conn (closeAndResolve ms v h)) rid t"
    by (simp add: closeAndResolve_def resolve_def awaited_def)
qed

lemma nextContext_ok:
  assumes "0 < ms" and "wellFormed (conn h)"
  shows "handlerOk (nextContext ms i h)"
proof (cases "i < length (contexts (conn h))")
  case False
  then show ?thesis by (simp add: nextContext_def closeAndResolve_ok [OF assms(2)])
next
  case True
  let ?h' = "h\<lparr>conn := step (Some ms) (Request ''Runtime.evaluate'') (conn h),
             stage := Evaluating (messageId (conn h)) i\<rparr>"
  from True have eq: "nextContext ms i h = ?h'" by (simp add: nextContext_def)
  note ca = call_awaiting [OF assms(2,1), of "''Runtime.evaluate''"]
  have "handlerOk ?h'"
  proof (rule handlerOk_intro)
    show "wellFormed (conn ?h')" using ca(2) by simp
  next
    fix rid assume "awaited ?h' = Some rid"
    then have "rid = messageId (conn h)" by (simp add: awaited_def)
    with ca(1) show "\<exists>t. awaiting (conn ?h') rid t" by auto
  qed
  with eq show ?thesis by simp
qed

lemma onOpen_ok: "0 < ms \<Longrightarrow> handlerOk (onOpen ms)"
proof (rule handlerOk_intro)
  assume ms: "0 < ms"
  note ca = call_awaiting [OF wellFormed_open ms, of "''Runtime.enable''"]
  show "wellFormed (conn (onOpen ms))" using ca(2) by (simp add: onOpen_def)
  fix rid assume "awaited (onOpen ms :: 'a handler) = Some rid"
  then have "rid = messageId (openConnection :: 'a connection)"
    by (simp add: awaited_def onOpen_def)
  with ca(1) show "\<exists>t. awaiting (conn (onOpen ms :: 'a handler)) rid t"
    by (auto simp: onOpen_def)
qed

text \<open>What a signal does to the awaited request before the handler runs on.\<close>

lemma deliver_awaiting:
  assumes "awaiting (conn h) rid t"
  shows "awaiting (conn (deliver ms s h)) rid t \<or> outcomesOf rid (conn (deliver ms s h)) \<noteq> []"
proof (cases s)
  case (Frame msg)
  show ?thesis
  proof (cases "wsOpen (conn h)")
    case False
    with Frame assms(1) show ?thesis by (simp add: deliver_def)
  next
    case True
    show ?thesis
    proof (cases "answers rid (Message msg)")
      case False
      have ne: "\<forall>d. Message msg \<noteq> Elapse d" by simp
      from step_awaiting(1) [OF assms(1) False ne, of "Some ms"] Frame True
      show ?thesis by (simp add: deliver_def)
    next
      case ans: True
      then obtain err res where msg: "msg = Response rid err res"
        by (cases msg) (simp_all add: answers_def)
      show ?thesis
      proof (cases "rid = 0")
        case True
        then have "step (Some ms) (Message msg) (conn h) = conn h"
          by (simp add: msg step_def onMessageCtx_def)
        with Frame assms(1) \<open>wsOpen (conn h)\<close> show ?thesis by (simp add: deliver_def)
      next
        case False
        from assms(1) have "rid \<in> pending (conn h)" by (simp add: awaiting_def)
        with False have "outcomesOf rid (step (Some ms) (Message msg) (conn h)) \<noteq> []"
          by (simp add: msg step_def onMessageCtx_def settle_def outcomesOf_def)
        with Frame \<open>wsOpen (conn h)\<close> show ?thesis by (simp add: deliver_def)
      qed
    qed
  qed
next
  case Tick
  show ?thesis
  proof (cases "clock (conn h) + 1 < t")
    case True
    from tick_awaiting [OF assms(1) True, of "Some ms"] Tick show ?thesis
      by (simp add: deliver_def)
  next
    case False
    then have "t \<le> clock (conn h) + 1" by simp
    from tick_timeout(2) [OF assms(1) this, of "Some ms"] Tick show ?thesis
      by (simp add: deliver_def)
  qed
next
  case SocketError
  have na: "\<not> answers rid WsError" by (simp add: answers_def)
  have ne: "\<forall>d. (WsError :: 'a event) \<noteq> Elapse d" by simp
  from step_awaiting(1) [OF assms(1) na ne, of "Some ms"] SocketError
  show ?thesis by (simp add: deliver_def resolve_def)
qed

lemma onSignal_ok:
  assumes "0 < ms" and "handlerOk h"
  shows "handlerOk (onSignal ms accept s h)"
proof -
  define h1 where "h1 = deliver ms s h"
  have r: "onSignal ms accept s h = resume ms accept h1"
    unfolding h1_def by (simp add: onSignal_def)
  from assms(2) have wf: "wellFormed (conn h)" by (simp add: handlerOk_def)
  have wf1: "wellFormed (conn h1)"
    by (cases s) (simp_all add: h1_def deliver_def resolve_def wf step_wellFormed)
  have st1: "stage h1 = stage h"
    by (cases s) (simp_all add: h1_def deliver_def resolve_def)
  have aw1: "awaiting (conn h1) rid t \<or> outcomesOf rid (conn h1) \<noteq> []"
    if "awaiting (conn h) rid t" for rid t
    unfolding h1_def by (rule deliver_awaiting [OF that])
  have idle: "handlerOk h1" if "awaited h1 = None"
    using wf1 that by (simp add: handlerOk_def)
  have "handlerOk (resume ms accept h1)"
  proof (cases "stage h")
    case Finished
    with st1 have "resume ms accept h1 = h1" "awaited h1 = None"
      by (simp_all add: resume_def awaited_def)
    with idle show ?thesis by simp
  next
    case (Settling u)
    with st1 have aw: "awaited h1 = None" by (simp add: awaited_def)
    show ?thesis
    proof (cases "u \<le> clock (conn h1)")
      case True
      with Settling st1 have "resume ms accept h1 = nextContext ms 0 h1"
        by (simp add: resume_def)
      with nextContext_ok [OF assms(1) wf1] show ?thesis by simp
    next
      case False
      with Settling st1 have "resume ms accept h1 = h1" by (simp add: resume_def)
      with idle [OF aw] show ?thesis by simp
    qed
  next
    case (Enabling rid)
    then have "awaited h = Some rid" by (simp add: awaited_def)
    from handlerOk_awaiting [OF assms(2) this] obtain t where "awaiting (conn h) rid t" by blast
    note cases1 = aw1 [OF this]
    from Enabling st1 have s1: "stage h1 = Enabling rid" by simp
    show ?thesis
    proof (cases "outcomesOf rid (conn h1)")
      case Nil
      with s1 have eq: "resume ms accept h1 = h1" by (simp add: resume_def)
      from Nil cases1 have a: "awaiting (conn h1) rid t" by simp
      have "handlerOk h1"
      proof (rule handlerOk_intro [OF wf1])
        fix r assume "awaited h1 = Some r"
        with s1 have "r = rid" by (simp add: awaited_def)
        with a show "\<exists>t. awaiting (conn h1) r t" by blast
      qed
      with eq show ?thesis by simp
    next
      case (Cons x xs)
      show ?thesis
      proof (cases x)
        case (Resolved res)
        with Cons s1 have eq: "resume ms accept h1 = h1\<lparr>stage := Settling (clock (conn h1) + 500)\<rparr>"
          by (simp add: resume_def)
        have "handlerOk (h1\<lparr>stage := Settling (clock (conn h1) + 500)\<rparr>)"
          using wf1 by (simp add: handlerOk_def awaited_def)
        with eq show ?thesis by simp
      next
        case (Rejected message)
        with Cons s1 have "resume ms accept h1 = closeAndResolve ms (Failed message) h1"
          by (simp add: resume_def)
        with closeAndResolve_ok [OF wf1] show ?thesis by simp
      qed
    qed
  next
    case (Evaluating rid i)
    then have "awaited h = Some rid" by (simp add: awaited_def)
    from handlerOk_awaiting [OF assms(2) this] obtain t where "awaiting (conn h) rid t" by blast
    note cases1 = aw1 [OF this]
    from Evaluating st1 have s1: "stage h1 = Evaluating rid i" by simp
    show ?thesis
    proof (cases "outcomesOf rid (conn h1)")
      case Nil
      with s1 have eq: "resume ms accept h1 = h1" by (simp add: resume_def)
      from Nil cases1 have a: "awaiting (conn h1) rid t" by simp
      have "handlerOk h1"
      proof (rule handlerOk_intro [OF wf1])
        fix r assume "awaited h1 = Some r"
        with s1 have "r = rid" by (simp add: awaited_def)
        with a show "\<exists>t. awaiting (conn h1) r t" by blast
      qed
      with eq show ?thesis by simp
    next
      case (Cons x xs)
      show ?thesis
      proof (cases x)
        case (Resolved res)
        show ?thesis
        proof (cases "accept res")
          case True
          with Resolved Cons s1 have "resume ms accept h1 = closeAndResolve ms (Value res) h1"
            by (simp add: resume_def)
          with closeAndResolve_ok [OF wf1] show ?thesis by simp
        next
          case False
          with Resolved Cons s1 have "resume ms accept h1 = nextContext ms (i + 1) h1"
            by (simp add: resume_def)
          with nextContext_ok [OF assms(1) wf1] show ?thesis by simp
        qed
      next
        case (Rejected message)
        with Cons s1 have "resume ms accept h1 = nextContext ms (i + 1) h1"
          by (simp add: resume_def)
        with nextContext_ok [OF assms(1) wf1] show ?thesis by simp
      qed
    qed
  qed
  with r show ?thesis by simp
qed

lemma fold_onSignal_ok:
  "0 < ms \<Longrightarrow> handlerOk h \<Longrightarrow> handlerOk (fold (onSignal ms accept) sigs h)"
  by (induction sigs arbitrary: h) (simp_all add: onSignal_ok)

lemma operate_ok: "0 < ms \<Longrightarrow> handlerOk (operate ms accept sigs)"
  by (simp add: operate_def fold_onSignal_ok onOpen_ok)

lemma operate_append:
  "operate ms accept (sigs0 @ sigs) = fold (onSignal ms accept) sigs (operate ms accept sigs0)"
  by (simp add: operate_def)

lemma ticks_replicate: "ticks (replicate n Tick) = n"
  by (induction n) (simp_all add: ticks_def)

lemma awaiting_due:
  "awaiting c rid t \<Longrightarrow> (u, rid) \<in> set (timers c) \<Longrightarrow> u = t"
  by (auto simp: awaiting_def)

lemma resume_contexts: "contexts (conn (resume ms accept h)) = contexts (conn h)"
  by (simp add: resume_def nextContext_def closeAndResolve_def resolve_def step_def call_def
      send_def Let_def split: stage.splits list.splits outcome.splits)

lemma ticks_contexts:
  "contexts (conn (fold (onSignal ms accept) (replicate n Tick) h)) = contexts (conn h)"
proof (induction n arbitrary: h)
  case 0
  show ?case by simp
next
  case (Suc n)
  have "contexts (conn (onSignal ms accept Tick h)) = contexts (conn h)"
    by (simp add: onSignal_def deliver_def resume_contexts step_def advance_contexts)
  with Suc [of "onSignal ms accept Tick h"] show ?case by simp
qed

text \<open>Milliseconds in which no timeout is due only move the clock.\<close>

lemma advance_quiet:
  assumes "\<forall>x\<in>set (timers c). clock c + d < fst x"
  shows "advance d c = c\<lparr>clock := clock c + d\<rparr>"
proof -
  from assms have "filter (\<lambda>x. fst x \<le> clock c + d) (timers c) = []"
    by (auto simp: filter_empty_conv)
  moreover from assms have "filter (\<lambda>x. \<not> fst x \<le> clock c + d) (timers c) = timers c"
    by (auto simp: filter_id_conv)
  ultimately show ?thesis by (simp add: advance_def Let_def)
qed

lemma settling_ticks:
  assumes "stage h = Settling t" and "clock (conn h) + n < t"
    and "\<forall>x\<in>set (timers (conn h)). clock (conn h) + n < fst x"
  shows "fold (onSignal ms accept) (replicate n Tick) h =
         h\<lparr>conn := (conn h)\<lparr>clock := clock (conn h) + n\<rparr>\<rparr>"
  using assms
proof (induction n arbitrary: h)
  case 0
  show ?case by simp
next
  case (Suc n)
  let ?h1 = "h\<lparr>conn := (conn h)\<lparr>clock := clock (conn h) + 1\<rparr>\<rparr>"
  from Suc.prems(3) have "\<forall>x\<in>set (timers (conn h)). clock (conn h) + 1 < fst x" by auto
  from advance_quiet [OF this] Suc.prems(1,2)
  have one: "onSignal ms accept Tick h = ?h1"
    by (simp add: onSignal_def deliver_def step_def resume_def)
  from Suc.prems have "stage ?h1 = Settling t" "clock (conn ?h1) + n < t"
    "\<forall>x\<in>set (timers (conn ?h1)). clock (conn ?h1) + n < fst x"
    by simp_all
  from Suc.IH [OF this] one show ?case by simp
qed

lemma onOpen_awaiting:
  fixes h :: "'r handler"
  assumes "0 < ms" and "h = onOpen ms"
  shows "awaited h = Some 1 \<and> awaiting (conn h) 1 ms \<and> stage h = Enabling 1 \<and>
         wsOpen (conn h) \<and> resolved h = None \<and> clock (conn h) = 0"
  using assms
  by (simp add: onOpen_def awaited_def awaiting_def step_def call_def send_def
      openConnection_def Let_def outcomesOf_def)

text \<open>
  \<open>Runtime.enable\<close> gets no response and nothing else happens. Before the timeout the
  handler waits on an open socket; at the timeout the call is rejected, and the handler
  closes the socket and resolves the operation to the failure.
\<close>

lemma enable_unanswered:
  assumes "n < ms"
  shows "stage (operate ms accept (replicate n Tick)) = Enabling 1 \<and>
         1 \<in> pending (conn (operate ms accept (replicate n Tick))) \<and>
         outcomesOf 1 (conn (operate ms accept (replicate n Tick))) = [] \<and>
         wsOpen (conn (operate ms accept (replicate n Tick))) \<and>
         resolved (operate ms accept (replicate n Tick)) = None \<and>
         awaiting (conn (operate ms accept (replicate n Tick))) 1 ms \<and>
         clock (conn (operate ms accept (replicate n Tick))) = n"
proof -
  from assms have pos: "0 < ms" by simp
  note o = onOpen_awaiting [OF pos refl, where ?'r = 'a]
  from o have aw: "awaited (onOpen ms :: 'a handler) = Some 1"
    and ag: "awaiting (conn (onOpen ms :: 'a handler)) 1 ms" by blast+
  have nr: "\<forall>s\<in>set (replicate n Tick :: 'a signal list). \<not> responds 1 s"
    by (simp add: responds_def)
  from o assms have lt: "clock (conn (onOpen ms :: 'a handler)) + ticks (replicate n Tick :: 'a signal list) < ms"
    by (simp add: ticks_replicate)
  from waiting [OF aw ag nr lt, of ms accept] o show ?thesis
    by (simp add: operate_def awaiting_def ticks_replicate)
qed

lemma enable_timeout:
  assumes "0 < ms"
  shows "stage (operate ms accept (replicate ms Tick)) = Finished \<and>
         1 \<notin> pending (conn (operate ms accept (replicate ms Tick))) \<and>
         outcomesOf 1 (conn (operate ms accept (replicate ms Tick))) = [Rejected ''Timeout''] \<and>
         \<not> wsOpen (conn (operate ms accept (replicate ms Tick))) \<and>
         resolved (operate ms accept (replicate ms Tick)) = Some (Failed ''Timeout'')"
proof -
  let ?h = "operate ms accept (replicate (ms - 1) Tick)"
  from assms have "ms - 1 < ms" by simp
  note u = enable_unanswered [OF this, of accept]
  from u have st: "stage ?h = Enabling 1" and ag: "awaiting (conn ?h) 1 ms"
    and rs: "resolved ?h = None" by blast+
  from st have aw: "awaited ?h = Some 1" by (simp add: awaited_def)
  from u assms have due: "clock (conn ?h) + 1 = ms" by simp
  from assms have "replicate ms Tick = replicate (ms - 1) Tick @ [Tick :: 'a signal]"
    by (cases ms) (simp_all add: replicate_append_same)
  then have "operate ms accept (replicate ms Tick) = onSignal ms accept Tick ?h"
    by (simp add: operate_def)
  with timeout_tick [OF aw ag due, of ms accept] st rs show ?thesis by simp
qed

text \<open>The example run of \<open>setModel\<close> up to its first evaluation.\<close>

lemma contextsThenPause_state:
  "operate 5000 accept contextsThenPause =
     \<lparr>conn = \<lparr>messageId = 3, pending = {2}, outcomes = [(1, Resolved ''{}'')],
               frames = [(1, ''Runtime.enable''), (2, ''Runtime.evaluate'')],
               timers = [(5000, 1), (5500, 2)], clock = 500, contexts = [7, 8],
               wsOpen = True\<rparr>,
      stage = Evaluating 2 0, resolved = None\<rparr>"
proof -
  let ?fr = "[Frame (ContextCreated 7), Frame (ContextCreated 8), Frame (Response 1 None ''{}'')]"
  let ?h0 = "\<lparr>conn = \<lparr>messageId = 2, pending = {}, outcomes = [(1, Resolved ''{}'')],
               frames = [(1, ''Runtime.enable'')],
               timers = [(5000, 1)], clock = 0, contexts = [7, 8],
               wsOpen = True\<rparr>,
      stage = Settling 500, resolved = None :: string resolution option\<rparr>"
  let ?h1 = "?h0\<lparr>conn := (conn ?h0)\<lparr>clock := clock (conn ?h0) + 499\<rparr>\<rparr>"
  have e0: "operate 5000 accept ?fr = ?h0"
    by (simp add: operate_def onOpen_def onSignal_def deliver_def resume_def step_def call_def
        send_def onMessageCtx_def settle_def outcomesOf_def openConnection_def Let_def)
  have e1: "fold (onSignal 5000 accept) (replicate 499 Tick) ?h0 = ?h1"
    by (rule settling_ticks [of ?h0 500]) simp_all
  have e2: "onSignal 5000 accept Tick ?h1 =
     \<lparr>conn = \<lparr>messageId = 3, pending = {2}, outcomes = [(1, Resolved ''{}'')],
               frames = [(1, ''Runtime.enable''), (2, ''Runtime.evaluate'')],
               timers = [(5000, 1), (5500, 2)], clock = 500, contexts = [7, 8],
               wsOpen = True\<rparr>,
      stage = Evaluating 2 0, resolved = None\<rparr>"
    by (simp add: onSignal_def deliver_def resume_def nextContext_def step_def call_def
        send_def advance_def Let_def)
  have "replicate (499 + 1) Tick = replicate 499 Tick @ replicate 1 (Tick :: string signal)"
    by (rule replicate_add)
  then have sp: "contextsThenPause = (?fr @ replicate 499 Tick) @ [Tick]"
    by (simp add: contextsThenPause_def)
  have "operate 5000 accept contextsThenPause =
      onSignal 5000 accept Tick (fold (onSignal 5000 accept) (replicate 499 Tick)
        (operate 5000 accept ?fr))"
    by (simp only: sp operate_append fold_simps o_apply id_apply)
  with e0 e1 e2 show ?thesis by simp
qed

text \<open>
  Claim C7, as the code has it. The helper of \<open>getModelAndMode\<close> sets a timeout of 3000
  ms, the helpers of \<open>setModel\<close>, \<open>setMode\<close>, \<open>getPendingApprovals\<close> and
  \<open>respondToApproval\<close> one of 5000 ms. Take any run \<open>sigs0\<close> of the operation after
  which the handler waits for a call \<open>rid\<close> it has just made (the timeout of the call is
  due a full deadline from now), and let signals \<open>sigs\<close> follow that are no response to
  that call: other frames, socket errors, milliseconds. While less than the deadline
  has passed, the handler waits, the call is pending and unsettled, and the socket is
  open unless it has reported an error. On the millisecond that completes the deadline
  the id leaves the pending map and the promise of the call is rejected with "Timeout".
  The callback of the timeout does not touch the socket; what becomes of the connection
  is decided by the handler, in the same turn. After a timed-out \<open>Runtime.enable\<close> the
  outer \<^verbatim>\<open>catch\<close> closes the socket and resolves the operation with the message
  "Timeout". After a timed-out \<open>Runtime.evaluate\<close> the inner \<^verbatim>\<open>catch\<close> swallows the
  rejection: the socket is left as it is and the evaluation of the next context is
  called on it, or, when no context is left, the socket is closed and the operation
  resolved to its default.
\<close>

theorem call_timeout:
  assumes "awaited (operate (callTimeout op) accept sigs0) = Some rid"
    and "(clock (conn (operate (callTimeout op) accept sigs0)) + callTimeout op, rid)
           \<in> set (timers (conn (operate (callTimeout op) accept sigs0)))"
    and "\<forall>s\<in>set sigs. \<not> responds rid s"
  shows "(let ms = callTimeout op;
              h = operate ms accept sigs0;
              h' = operate ms accept (sigs0 @ sigs);
              h'' = operate ms accept (sigs0 @ sigs @ [Tick])
          in ms = (if op = GetModelAndMode then 3000 else 5000)
           \<and> (ticks sigs < ms \<longrightarrow>
                stage h' = stage h \<and> rid \<in> pending (conn h') \<and> outcomesOf rid (conn h') = [] \<and>
                wsOpen (conn h') = (wsOpen (conn h) \<and> SocketError \<notin> set sigs) \<and>
                resolved h' =
                  (if SocketError \<in> set sigs
                   then (case resolved h of None \<Rightarrow> Some (Failed ''WebSocket error'')
                         | Some w \<Rightarrow> Some w)
                   else resolved h))
           \<and> (ticks sigs + 1 = ms \<longrightarrow>
                rid \<notin> pending (conn h'') \<and> outcomesOf rid (conn h'') = [Rejected ''Timeout''] \<and>
                (case stage h of
                   Enabling r \<Rightarrow>
                     stage h'' = Finished \<and> \<not> wsOpen (conn h'') \<and>
                     resolved h'' =
                       (case resolved h' of None \<Rightarrow> Some (Failed ''Timeout'') | Some w \<Rightarrow> Some w)
                 | Evaluating r i \<Rightarrow>
                     if i + 1 < length (contexts (conn h'))
                     then stage h'' = Evaluating (messageId (conn h)) (i + 1) \<and>
                          wsOpen (conn h'') = wsOpen (conn h') \<and>
                          messageId (conn h) \<in> pending (conn h'') \<and>
                          resolved h'' = resolved h'
                     else stage h'' = Finished \<and> \<not> wsOpen (conn h'') \<and>
                          resolved h'' =
                            (case resolved h' of None \<Rightarrow> Some NoMatch | Some w \<Rightarrow> Some w)
                 | Settling u \<Rightarrow> True
                 | Finished \<Rightarrow> True)))"
proof -
  let ?ms = "callTimeout op"
  let ?h = "operate ?ms accept sigs0"
  let ?h' = "fold (onSignal ?ms accept) sigs ?h"
  let ?h'' = "onSignal ?ms accept Tick ?h'"
  have ms: "?ms = (if op = GetModelAndMode then 3000 else 5000)" by (cases op) simp_all
  then have pos: "0 < ?ms" by simp
  from handlerOk_awaiting [OF operate_ok [OF pos] assms(1)]
  obtain t where aw0: "awaiting (conn ?h) rid t" by blast
  from awaiting_due [OF aw0 assms(2)] have t: "t = clock (conn ?h) + ?ms" by simp
  have e1: "operate ?ms accept (sigs0 @ sigs) = ?h'" by (rule operate_append)
  have e2: "operate ?ms accept (sigs0 @ sigs @ [Tick]) = ?h''"
    using operate_append [of ?ms accept "sigs0 @ sigs" "[Tick]"] e1 by simp
  have early: "stage ?h' = stage ?h \<and> rid \<in> pending (conn ?h') \<and> outcomesOf rid (conn ?h') = [] \<and>
      wsOpen (conn ?h') = (wsOpen (conn ?h) \<and> SocketError \<notin> set sigs) \<and>
      resolved ?h' =
        (if SocketError \<in> set sigs
         then (case resolved ?h of None \<Rightarrow> Some (Failed ''WebSocket error'') | Some w \<Rightarrow> Some w)
         else resolved ?h)"
    if "ticks sigs < ?ms"
  proof -
    from that t have "clock (conn ?h) + ticks sigs < t" by simp
    from waiting [OF assms(1) aw0 assms(3) this, of ?ms accept]
    show ?thesis by (simp add: awaiting_def)
  qed
  have late: "rid \<notin> pending (conn ?h'') \<and> outcomesOf rid (conn ?h'') = [Rejected ''Timeout''] \<and>
      (case stage ?h of
         Enabling r \<Rightarrow>
           stage ?h'' = Finished \<and> \<not> wsOpen (conn ?h'') \<and>
           resolved ?h'' =
             (case resolved ?h' of None \<Rightarrow> Some (Failed ''Timeout'') | Some w \<Rightarrow> Some w)
       | Evaluating r i \<Rightarrow>
           if i + 1 < length (contexts (conn ?h'))
           then stage ?h'' = Evaluating (messageId (conn ?h)) (i + 1) \<and>
                wsOpen (conn ?h'') = wsOpen (conn ?h') \<and>
                messageId (conn ?h) \<in> pending (conn ?h'') \<and>
                resolved ?h'' = resolved ?h'
           else stage ?h'' = Finished \<and> \<not> wsOpen (conn ?h'') \<and>
                resolved ?h'' =
                  (case resolved ?h' of None \<Rightarrow> Some NoMatch | Some w \<Rightarrow> Some w)
       | Settling u \<Rightarrow> True
       | Finished \<Rightarrow> True)"
    if "ticks sigs + 1 = ?ms"
  proof -
    from that t have lt: "clock (conn ?h) + ticks sigs < t" by simp
    note w = waiting [OF assms(1) aw0 assms(3) lt, of ?ms accept]
    from w have st: "stage ?h' = stage ?h" and aw: "awaiting (conn ?h') rid t"
      and ck: "clock (conn ?h') = clock (conn ?h) + ticks sigs"
      and mi: "messageId (conn ?h') = messageId (conn ?h)"
      by blast+
    from st assms(1) have awd: "awaited ?h' = Some rid" by (simp add: awaited_def)
    from ck that t have due: "clock (conn ?h') + 1 = t" by simp
    from timeout_tick [OF awd aw due, of ?ms accept] st mi show ?thesis
      by (cases "stage ?h") (simp_all cong: if_cong)
  qed
  show ?thesis
    unfolding Let_def e1 e2 using ms early late by blast
qed

text \<open>
  Two runs. \<open>getModelAndMode\<close> gets no response to \<open>Runtime.enable\<close>: after 2999 ms the
  handler waits on an open socket, after 3000 ms the call is rejected with "Timeout",
  the socket is closed and the operation resolved. \<open>setModel\<close> has its \<open>Runtime.enable\<close>
  answered and sees two contexts, and gets no response to the first \<open>Runtime.evaluate\<close>,
  called at 500 ms: 5000 ms later that call is rejected with "Timeout", the socket is
  still open, and the handler waits for the evaluation of the second context, request 3.
\<close>

theorem call_timeout_witness:
  "callTimeout GetModelAndMode = 3000 \<and>
   stage (operate 3000 (\<lambda>r. r = ''found'') (replicate 2999 Tick)) = Enabling 1 \<and>
   1 \<in> pending (conn (operate 3000 (\<lambda>r. r = ''found'') (replicate 2999 Tick))) \<and>
   outcomesOf 1 (conn (operate 3000 (\<lambda>r. r = ''found'') (replicate 2999 Tick))) = [] \<and>
   wsOpen (conn (operate 3000 (\<lambda>r. r = ''found'') (replicate 2999 Tick))) \<and>
   1 \<notin> pending (conn (operate 3000 (\<lambda>r. r = ''found'') (replicate 2999 Tick @ [Tick]))) \<and>
   outcomesOf 1 (conn (operate 3000 (\<lambda>r. r = ''found'') (replicate 2999 Tick @ [Tick]))) =
     [Rejected ''Timeout''] \<and>
   stage (operate 3000 (\<lambda>r. r = ''found'') (replicate 2999 Tick @ [Tick])) = Finished \<and>
   \<not> wsOpen (conn (operate 3000 (\<lambda>r. r = ''found'') (replicate 2999 Tick @ [Tick]))) \<and>
   resolved (operate 3000 (\<lambda>r. r = ''found'') (replicate 2999 Tick @ [Tick])) =
     Some (Failed ''Timeout'') \<and>
   callTimeout SetModel = 5000 \<and>
   stage (operate 5000 (\<lambda>r. r = ''found'') contextsThenPause) = Evaluating 2 0 \<and>
   2 \<in> pending (conn (operate 5000 (\<lambda>r. r = ''found'')
     (contextsThenPause @ replicate 4999 Tick))) \<and>
   2 \<notin> pending (conn (operate 5000 (\<lambda>r. r = ''found'')
     (contextsThenPause @ replicate 4999 Tick @ [Tick]))) \<and>
   outcomesOf 2 (conn (operate 5000 (\<lambda>r. r = ''found'')
     (contextsThenPause @ replicate 4999 Tick @ [Tick]))) = [Rejected ''Timeout''] \<and>
   stage (operate 5000 (\<lambda>r. r = ''found'')
     (contextsThenPause @ replicate 4999 Tick @ [Tick])) = Evaluating 3 1 \<and>
   wsOpen (conn (operate 5000 (\<lambda>r. r = ''found'')
     (contextsThenPause @ replicate 4999 Tick @ [Tick]))) \<and>
   3 \<in> pending (conn (operate 5000 (\<lambda>r. r = ''found'')
     (contextsThenPause @ replicate 4999 Tick @ [Tick]))) \<and>
   resolved (operate 5000 (\<lambda>r. r = ''found'')
     (contextsThenPause @ replicate 4999 Tick @ [Tick])) = None"
proof -
  let ?acc = "\<lambda>r::string. r = ''found''"
  have a1: "awaited (operate (callTimeout GetModelAndMode) ?acc []) = Some 1"
    by (simp add: operate_def onOpen_def awaited_def openConnection_def)
  have a2: "(clock (conn (operate (callTimeout GetModelAndMode) ?acc [])) +
             callTimeout GetModelAndMode, 1)
            \<in> set (timers (conn (operate (callTimeout GetModelAndMode) ?acc [])))"
    by (simp add: operate_def onOpen_def step_def call_def send_def openConnection_def Let_def)
  have a3: "\<forall>s\<in>set (replicate 2999 Tick :: string signal list). \<not> responds 1 s"
    by (simp add: responds_def)
  have s0: "stage (operate 3000 ?acc []) = Enabling 1"
    "wsOpen (conn (operate 3000 ?acc []))"
    "resolved (operate 3000 ?acc []) = None"
    by (simp_all add: operate_def onOpen_def step_def call_def send_def openConnection_def
        Let_def)
  have first: "stage (operate 3000 ?acc (replicate 2999 Tick)) = Enabling 1 \<and>
   1 \<in> pending (conn (operate 3000 ?acc (replicate 2999 Tick))) \<and>
   outcomesOf 1 (conn (operate 3000 ?acc (replicate 2999 Tick))) = [] \<and>
   wsOpen (conn (operate 3000 ?acc (replicate 2999 Tick))) \<and>
   1 \<notin> pending (conn (operate 3000 ?acc (replicate 2999 Tick @ [Tick]))) \<and>
   outcomesOf 1 (conn (operate 3000 ?acc (replicate 2999 Tick @ [Tick]))) =
     [Rejected ''Timeout''] \<and>
   stage (operate 3000 ?acc (replicate 2999 Tick @ [Tick])) = Finished \<and>
   \<not> wsOpen (conn (operate 3000 ?acc (replicate 2999 Tick @ [Tick]))) \<and>
   resolved (operate 3000 ?acc (replicate 2999 Tick @ [Tick])) = Some (Failed ''Timeout'')"
    using call_timeout [OF a1 a2 a3]
    by (simp add: Let_def ticks_replicate s0)
  note b0 = contextsThenPause_state [of ?acc]
  have b1: "awaited (operate (callTimeout SetModel) ?acc contextsThenPause) = Some 2"
    by (simp add: b0 awaited_def)
  have b2: "(clock (conn (operate (callTimeout SetModel) ?acc contextsThenPause)) +
             callTimeout SetModel, 2)
            \<in> set (timers (conn (operate (callTimeout SetModel) ?acc contextsThenPause)))"
    by (simp add: b0)
  have b3: "\<forall>s\<in>set (replicate 4999 Tick :: string signal list). \<not> responds 2 s"
    by (simp add: responds_def)
  have cx: "contexts (conn (operate 5000 ?acc (contextsThenPause @ replicate 4999 Tick))) = [7, 8]"
    unfolding operate_append ticks_contexts b0 by simp
  have t0: "stage (operate 5000 ?acc contextsThenPause) = Evaluating 2 0"
    "wsOpen (conn (operate 5000 ?acc contextsThenPause))"
    "resolved (operate 5000 ?acc contextsThenPause) = None"
    "messageId (conn (operate 5000 ?acc contextsThenPause)) = 3"
    using b0 by simp_all
  have second: "stage (operate 5000 ?acc contextsThenPause) = Evaluating 2 0 \<and>
   2 \<in> pending (conn (operate 5000 ?acc (contextsThenPause @ replicate 4999 Tick))) \<and>
   2 \<notin> pending (conn (operate 5000 ?acc (contextsThenPause @ replicate 4999 Tick @ [Tick]))) \<and>
   outcomesOf 2 (conn (operate 5000 ?acc (contextsThenPause @ replicate 4999 Tick @ [Tick]))) =
     [Rejected ''Timeout''] \<and>
   stage (operate 5000 ?acc (contextsThenPause @ replicate 4999 Tick @ [Tick])) =
     Evaluating 3 1 \<and>
   wsOpen (conn (operate 5000 ?acc (contextsThenPause @ replicate 4999 Tick @ [Tick]))) \<and>
   3 \<in> pending (conn (operate 5000 ?acc (contextsThenPause @ replicate 4999 Tick @ [Tick]))) \<and>
   resolved (operate 5000 ?acc (contextsThenPause @ replicate 4999 Tick @ [Tick])) = None"
    using call_timeout [OF b1 b2 b3]
    by (simp add: Let_def ticks_replicate t0 cx)
  from first second show ?thesis by simp
qed

text \<open>
  Against the claim. The read query \<open>getPendingApprovals\<close> does not time out after about
  three seconds: its helper passes 5000 to \<^verbatim>\<open>setTimeout\<close>, and four seconds after a call
  without a response the request is still pending and nothing has been rejected. And a
  timeout can be the end of the connection: when \<open>Runtime.enable\<close> of \<open>getModelAndMode\<close>
  times out, the rejection is caught by the handler, which closes the socket at once.
\<close>

theorem call_timeout_counterexample:
  "callTimeout GetPendingApprovals = 5000 \<and>
   1 \<in> pending (conn (operate (callTimeout GetPendingApprovals) (\<lambda>r. r = ''found'')
          (replicate 4000 Tick))) \<and>
   outcomesOf 1 (conn (operate (callTimeout GetPendingApprovals) (\<lambda>r. r = ''found'')
          (replicate 4000 Tick))) = [] \<and>
   outcomesOf 1 (conn (operate (callTimeout GetModelAndMode) (\<lambda>r. r = ''found'')
          (replicate 3000 Tick))) = [Rejected ''Timeout''] \<and>
   \<not> wsOpen (conn (operate (callTimeout GetModelAndMode) (\<lambda>r. r = ''found'')
          (replicate 3000 Tick)))"
  using enable_unanswered [of 4000 5000 "\<lambda>r. r = ''found''"]
    enable_timeout [of 3000 "\<lambda>r. r = ''found''"]
  by simp

end
